theory Spec2Isabelle
  imports Main
begin

section \<open>The command line interface of PyScaffold (pyscaffold/cli.py)\<close>

text \<open>
  The module reads the process environment, the file system and the argument list, and
  returns an options dictionary or raises. The model makes all of that explicit: the
  environment and the file system are a record that every function receives, a raised
  exception is the \<open>Inl\<close> side of a sum, and a dictionary is a map. The functions of the
  Python standard library that \<open>cli.py\<close> calls (\<open>os.path\<close>, \<open>shlex\<close>, \<open>argparse\<close>) are
  embedded from CPython 3.11 on a POSIX platform, where \<open>os.sep\<close> is the slash.
\<close>

subsection \<open>Exceptions and the environment\<close>

datatype error =
    OldSetuptools
  | ValueError string
  | RecursionError
  | SystemExit nat
  | KeyError string
  | AttributeError string
  | TypeError string

record environment =
  environ :: "string \<Rightarrow> string option"
  path_exists :: "string \<Rightarrow> bool"
  file_contents :: "string \<Rightarrow> string option"
  expanduser :: "string \<Rightarrow> string"
  old_setuptools :: bool
  license_choices :: "string list"
  recursion_limit :: nat

text \<open>
  \<open>environ\<close> is \<open>os.environ\<close>, \<open>path_exists\<close> is \<open>os.path.exists\<close>, \<open>file_contents p\<close> is what
  \<open>open(p).read()\<close> returns (\<open>None\<close> when it raises \<open>OSError\<close>), \<open>expanduser\<close> is
  \<open>os.path.expanduser\<close> (it consults the password database), \<open>old_setuptools\<close> tells whether
  \<open>utils.check_setuptools_version\<close> raises, \<open>license_choices\<close> is \<open>templates.licenses.keys()\<close>,
  and \<open>recursion_limit\<close> bounds the depth of nested argument files, as the interpreter's
  recursion limit does.
\<close>

subsection \<open>os.path\<close>

definition os_sep :: char where
  "os_sep = CHR ''/''"

text \<open>\<open>posixpath.join\<close> for two components.\<close>

definition os_path_join :: "string \<Rightarrow> string \<Rightarrow> string" where
  "os_path_join a b =
     (if b \<noteq> [] \<and> hd b = os_sep then b
      else if a = [] \<or> last a = os_sep then a @ b
      else a @ [os_sep] @ b)"

definition is_word_char :: "char \<Rightarrow> bool" where
  "is_word_char c \<longleftrightarrow>
     c \<in> set ''abcdefghijklmnopqrstuvwxyzABCDEFGHIJKLMNOPQRSTUVWXYZ0123456789_''"

text \<open>
  \<open>posixpath.expandvars\<close>: the next match of \<open>\$(\w+|\{[^}]*\})\<close> is replaced by the value
  of the variable when it is set and left as it is otherwise; the search goes on after
  the match (or after the inserted value), so a value is never expanded again.
\<close>

definition after_name :: "string \<Rightarrow> string" where
  "after_name cs = dropWhile is_word_char cs"

definition after_brace :: "string \<Rightarrow> string" where
  "after_brace cs = tl (dropWhile (\<lambda>x. x \<noteq> CHR ''}'') (tl cs))"

lemma length_after_name: "length (after_name cs) < Suc (length cs)"
  unfolding after_name_def by (simp add: le_imp_less_Suc length_dropWhile_le)

lemma length_after_brace: "length (after_brace cs) < Suc (length cs)"
proof -
  have "length (after_brace cs) \<le> length (dropWhile (\<lambda>x. x \<noteq> CHR ''}'') (tl cs))"
    unfolding after_brace_def by simp
  also have "\<dots> \<le> length (tl cs)" by (rule length_dropWhile_le)
  also have "\<dots> \<le> length cs" by simp
  finally show ?thesis by simp
qed

function expandvars :: "environment \<Rightarrow> string \<Rightarrow> string" where
  "expandvars env [] = []"
| "expandvars env (c # cs) =
     (if c \<noteq> CHR ''$'' then c # expandvars env cs
      else if takeWhile is_word_char cs \<noteq> [] then
        (case environ env (takeWhile is_word_char cs) of
           Some v \<Rightarrow> v @ expandvars env (after_name cs)
         | None \<Rightarrow> c # takeWhile is_word_char cs @ expandvars env (after_name cs))
      else if cs \<noteq> [] \<and> hd cs = CHR ''{'' \<and> CHR ''}'' \<in> set (tl cs) then
        (case environ env (takeWhile (\<lambda>x. x \<noteq> CHR ''}'') (tl cs)) of
           Some v \<Rightarrow> v @ expandvars env (after_brace cs)
         | None \<Rightarrow>
             c # CHR ''{'' # takeWhile (\<lambda>x. x \<noteq> CHR ''}'') (tl cs) @
             CHR ''}'' # expandvars env (after_brace cs))
      else c # expandvars env cs)"
  by pat_completeness auto
termination
  by (relation "measure (\<lambda>(env, s). length s)")
     (simp_all add: length_after_name length_after_brace)


subsection \<open>The configuration directory and the profile file\<close>

definition OSX_CONFIG :: string where
  "OSX_CONFIG = ''${HOME}/Library/Application Support''"

definition WIN_CONFIG :: string where
  "WIN_CONFIG = ''${APPDATA}''"

definition XDG_CONFIG :: string where
  "XDG_CONFIG = ''${XDG_CONFIG_HOME}''"

definition UNIX_CONFIG :: string where
  "UNIX_CONFIG = ''${HOME}/.config''"

definition DEFAULT_PROFILE :: string where
  "DEFAULT_PROFILE = ''default''"

definition candidates :: "environment \<Rightarrow> string list" where
  "candidates env = map (expandvars env) [OSX_CONFIG, WIN_CONFIG, XDG_CONFIG, UNIX_CONFIG]"

text \<open>The \<open>for\<close> loop of \<open>get_config_dir\<close>, which returns from inside at the first hit.\<close>

fun first_existing :: "environment \<Rightarrow> string list \<Rightarrow> string option" where
  "first_existing env [] = None"
| "first_existing env (candidate # rest) =
     (if path_exists env candidate then Some (os_path_join candidate ''pyscaffold'')
      else first_existing env rest)"

definition get_config_dir :: "environment \<Rightarrow> string" where
  "get_config_dir env =
     (case first_existing env (candidates env) of
        Some found \<Rightarrow> found
      | None \<Rightarrow> expanduser env (os_path_join ''~'' ''.pyscaffold''))"

text \<open>
  \<open>profile or DEFAULT_PROFILE\<close>: an unset variable (\<open>None\<close>) and the empty string both
  select the default profile.
\<close>

definition get_args_file :: "environment \<Rightarrow> string option \<Rightarrow> string" where
  "get_args_file env profile =
     os_path_join (get_config_dir env)
       ((case profile of
           None \<Rightarrow> DEFAULT_PROFILE
         | Some p \<Rightarrow> if p = [] then DEFAULT_PROFILE else p) @ ''.args'')"

subsection \<open>shlex.split with comments, POSIX mode\<close>

text \<open>
  \<open>shlex.split(s, True)\<close> builds a POSIX lexer with \<open>whitespace_split\<close> set and \<open>#\<close> as
  the commenter, and collects its tokens up to the first end-of-file token. The lexer
  state is the character Python keeps in \<open>self.state\<close> (\<open>None\<close> past the end of the input,
  a blank between tokens, \<open>a\<close> inside a word, the quote inside quotes, the backslash after
  an escape); \<open>escapedstate\<close>, \<open>quoted\<close> and \<open>token\<close> are the variables of \<open>read_token\<close>.
\<close>

definition whitespace :: string where
  "whitespace = [CHR '' '', CHR 0x09, CHR 0x0D, CHR 0x0A]"

definition commenters :: string where
  "commenters = ''#''"

definition quotes :: string where
  "quotes = [CHR 0x27, CHR 0x22]"

definition escape :: string where
  "escape = [CHR 0x5C]"

definition escapedquotes :: string where
  "escapedquotes = [CHR 0x22]"

definition wordchars :: string where
  "wordchars = ''abcdfeghijklmnopqrstuvwxyzABCDEFGHIJKLMNOPQRSTUVWXYZ0123456789_''"

text \<open>\<open>instream.readline()\<close>: the rest of the line is consumed, its newline included.\<close>

definition readline :: "string \<Rightarrow> string" where
  "readline cs = drop 1 (dropWhile (\<lambda>c. c \<noteq> CHR 0x0A) cs)"

lemma length_readline: "length (readline cs) < Suc (length cs)"
proof -
  have "length (readline cs) \<le> length (dropWhile (\<lambda>c. c \<noteq> CHR 0x0A) cs)"
    unfolding readline_def by simp
  also have "\<dots> \<le> length cs" by (rule length_dropWhile_le)
  finally show ?thesis by simp
qed

text \<open>
  The end of one \<open>read_token\<close> call: an unquoted empty result is the end-of-file token,
  which ends the list; any other result is a token and the lexer is asked for the next.
\<close>

definition emit :: "string \<Rightarrow> bool \<Rightarrow> (error + string list) \<Rightarrow> error + string list" where
  "emit tok quoted later =
     (if \<not> quoted \<and> tok = [] then Inr []
      else case later of Inl e \<Rightarrow> Inl e | Inr toks \<Rightarrow> Inr (tok # toks))"

function lex :: "char option \<Rightarrow> char \<Rightarrow> bool \<Rightarrow> string \<Rightarrow> string \<Rightarrow> error + string list" where
  "lex state escapedstate quoted token [] =
     (case state of
        None \<Rightarrow> Inr []
      | Some st \<Rightarrow>
          if st = CHR '' '' then emit token quoted (Inr [])
          else if st \<in> set quotes then Inl (ValueError ''No closing quotation'')
          else if st \<in> set escape then Inl (ValueError ''No escaped character'')
          else if st = CHR ''a'' then emit token quoted (Inr [])
          else Inr [])"
| "lex state escapedstate quoted token (nextchar # rest) =
     (case state of
        None \<Rightarrow> Inr []
      | Some st \<Rightarrow>
          if st = CHR '' '' then
            (if nextchar \<in> set whitespace then
               (if token \<noteq> [] \<or> quoted
                then emit token quoted (lex state CHR '' '' False [] rest)
                else lex state escapedstate quoted token rest)
             else if nextchar \<in> set commenters then
               lex state escapedstate quoted token (readline rest)
             else if nextchar \<in> set escape then
               lex (Some nextchar) CHR ''a'' quoted token rest
             else if nextchar \<in> set wordchars then
               lex (Some CHR ''a'') escapedstate quoted [nextchar] rest
             else if nextchar \<in> set quotes then
               lex (Some nextchar) escapedstate quoted token rest
             else
               lex (Some CHR ''a'') escapedstate quoted [nextchar] rest)
          else if st \<in> set quotes then
            (if nextchar = st then
               lex (Some CHR ''a'') escapedstate True token rest
             else if nextchar \<in> set escape \<and> st \<in> set escapedquotes then
               lex (Some nextchar) st True token rest
             else
               lex state escapedstate True (token @ [nextchar]) rest)
          else if st \<in> set escape then
            (if escapedstate \<in> set quotes \<and> nextchar \<noteq> st \<and> nextchar \<noteq> escapedstate
             then lex (Some escapedstate) escapedstate quoted (token @ [st] @ [nextchar]) rest
             else lex (Some escapedstate) escapedstate quoted (token @ [nextchar]) rest)
          else if st = CHR ''a'' then
            (if nextchar \<in> set whitespace then
               (if token \<noteq> [] \<or> quoted
                then emit token quoted (lex (Some CHR '' '') CHR '' '' False [] rest)
                else lex (Some CHR '' '') escapedstate quoted token rest)
             else if nextchar \<in> set commenters then
               (if token \<noteq> [] \<or> quoted
                then emit token quoted (lex (Some CHR '' '') CHR '' '' False [] (readline rest))
                else lex (Some CHR '' '') escapedstate quoted token (readline rest))
             else if nextchar \<in> set quotes then
               lex (Some nextchar) escapedstate quoted token rest
             else if nextchar \<in> set escape then
               lex (Some nextchar) CHR ''a'' quoted token rest
             else
               lex state escapedstate quoted (token @ [nextchar]) rest)
          else lex state escapedstate quoted token rest)"
  by pat_completeness auto
termination
  by (relation "measure (\<lambda>(st, es, q, tok, inp). length inp)")
     (simp_all add: length_readline)

definition shlex_split :: "string \<Rightarrow> error + string list" where
  "shlex_split s = lex (Some CHR '' '') CHR '' '' False [] s"

definition convert_arg_line_to_args :: "string \<Rightarrow> error + string list" where
  "convert_arg_line_to_args arg_line = shlex_split arg_line"


subsection \<open>argparse: actions and the parser\<close>

text \<open>
  The part of \<open>argparse\<close> that \<open>cli.py\<close> uses: positional and optional arguments whose
  \<open>nargs\<close> is \<open>None\<close> (exactly one value) or a number, the actions \<open>store\<close>, \<open>store_const\<close>,
  \<open>store_true\<close>, \<open>help\<close> and \<open>version\<close>, mutually exclusive groups, parser-level defaults,
  abbreviated long options, clustered short options and argument files.
\<close>

datatype callable = Run_scaffold | List_actions

datatype py_value =
    PyNone
  | PyStr string
  | PyBool bool
  | PyInt int
  | PyList "string list"
  | PyFunc callable

datatype action_kind = Store | Store_const | Help | Version

definition SUPPRESS :: string where
  "SUPPRESS = ''==SUPPRESS==''"

record action =
  option_strings :: "string list"
  dest :: string
  nargs :: "nat option"
  const_value :: py_value
  default_value :: py_value
  choices :: "string list option"
  required :: bool
  kind :: action_kind

record parser =
  actions :: "action list"
  option_string_actions :: "(string \<times> action) list"
  defaults :: "(string \<times> py_value) list"
  mutually_exclusive_groups :: "action list list"

definition prefix_chars :: string where
  "prefix_chars = ''-''"

definition fromfile_prefix_chars :: string where
  "fromfile_prefix_chars = ''@''"

text \<open>
  The keyword arguments of one \<open>add_argument\<close> call. \<open>arg_dest\<close> and \<open>arg_default\<close> are
  \<open>None\<close> when the call does not pass them; \<open>arg_action\<close> is the action class, with
  \<open>store_true\<close> given as \<open>store_const\<close> with the constant \<open>True\<close>.
\<close>

record argument =
  arg_flags :: "string list"
  arg_dest :: "string option"
  arg_action :: action_kind
  arg_const :: py_value
  arg_default :: "py_value option"
  arg_choices :: "string list option"

text \<open>
  \<open>_get_optional_kwargs\<close>: without \<open>dest\<close>, the destination is the first long option
  string (the first option string when there is none) without its leading prefix
  characters and with dashes replaced by underscores.
\<close>

definition infer_dest :: "string list \<Rightarrow> string" where
  "infer_dest flags =
     (let long_option_strings =
            filter (\<lambda>f. length f > 1 \<and> hd (tl f) \<in> set prefix_chars) flags;
          dest_option_string =
            (if long_option_strings \<noteq> [] then hd long_option_strings else hd flags)
      in map (\<lambda>c. if c = CHR ''-'' then CHR ''_'' else c)
           (dropWhile (\<lambda>c. c \<in> set prefix_chars) dest_option_string))"

text \<open>
  \<open>add_argument\<close>: a call without option strings adds a required positional; a call
  without \<open>default\<close> takes the parser-level default of its destination when there is
  one, and otherwise the default of the action class (\<open>SUPPRESS\<close> for \<open>help\<close> and
  \<open>version\<close>, \<open>None\<close> for the others).
\<close>

definition add_argument :: "parser \<Rightarrow> argument \<Rightarrow> parser" where
  "add_argument p a =
     (let d = (case arg_dest a of Some d \<Rightarrow> d | None \<Rightarrow> infer_dest (arg_flags a));
          act = \<lparr> option_strings = arg_flags a,
                  dest = d,
                  nargs = (if arg_action a = Store then None else Some 0),
                  const_value = arg_const a,
                  default_value =
                    (case arg_default a of
                       Some v \<Rightarrow> v
                     | None \<Rightarrow>
                         (case map_of (defaults p) d of
                            Some v \<Rightarrow> v
                          | None \<Rightarrow>
                              if arg_action a = Help \<or> arg_action a = Version
                              then PyStr SUPPRESS else PyNone)),
                  choices = arg_choices a,
                  required = (arg_flags a = []),
                  kind = arg_action a \<rparr>
      in p \<lparr> actions := actions p @ [act],
             option_string_actions :=
               option_string_actions p @ map (\<lambda>f. (f, act)) (arg_flags a) \<rparr>)"

text \<open>
  \<open>group.add_argument\<close> of a mutually exclusive group: the action is added to the parser
  and to the group, which here is the last group of the parser.
\<close>

definition add_mutually_exclusive_group :: "parser \<Rightarrow> parser" where
  "add_mutually_exclusive_group p =
     p \<lparr> mutually_exclusive_groups := mutually_exclusive_groups p @ [[]] \<rparr>"

definition group_add_argument :: "parser \<Rightarrow> argument \<Rightarrow> parser" where
  "group_add_argument p a =
     (let p' = add_argument p a in
      p' \<lparr> mutually_exclusive_groups :=
             butlast (mutually_exclusive_groups p') @
             [last (mutually_exclusive_groups p') @ [last (actions p')]] \<rparr>)"

definition set_defaults :: "parser \<Rightarrow> (string \<times> py_value) list \<Rightarrow> parser" where
  "set_defaults p kwargs =
     p \<lparr> defaults := kwargs @ defaults p,
         actions :=
           map (\<lambda>a. case map_of kwargs (dest a) of
                       Some v \<Rightarrow> a \<lparr> default_value := v \<rparr>
                     | None \<Rightarrow> a) (actions p) \<rparr>"

text \<open>
  \<open>ArgumentParser(...)\<close> with \<open>add_help\<close> left at its default: the parser starts with the
  help action.
\<close>

definition ArgumentParser :: parser where
  "ArgumentParser =
     add_argument
       \<lparr> actions = [], option_string_actions = [], defaults = [],
         mutually_exclusive_groups = [] \<rparr>
       \<lparr> arg_flags = [''-h'', ''--help''], arg_dest = None, arg_action = Help,
         arg_const = PyNone, arg_default = Some (PyStr SUPPRESS), arg_choices = None \<rparr>"

subsection \<open>The parser of cli.py\<close>

definition add_default_args :: "environment \<Rightarrow> parser \<Rightarrow> parser" where
  "add_default_args env parser0 =
     (let p1 = add_argument parser0
            \<lparr> arg_flags = [], arg_dest = Some ''project'', arg_action = Store,
              arg_const = PyNone, arg_default = None, arg_choices = None \<rparr>;
          p2 = add_argument p1
            \<lparr> arg_flags = [''-p'', ''--package''], arg_dest = Some ''package'',
              arg_action = Store, arg_const = PyNone, arg_default = None,
              arg_choices = None \<rparr>;
          p3 = add_argument p2
            \<lparr> arg_flags = [''-d'', ''--description''], arg_dest = Some ''description'',
              arg_action = Store, arg_const = PyNone, arg_default = None,
              arg_choices = None \<rparr>;
          p4 = add_argument p3
            \<lparr> arg_flags = [''-u'', ''--url''], arg_dest = Some ''url'',
              arg_action = Store, arg_const = PyNone, arg_default = None,
              arg_choices = None \<rparr>;
          p5 = add_argument p4
            \<lparr> arg_flags = [''-l'', ''--license''], arg_dest = Some ''license'',
              arg_action = Store, arg_const = PyNone, arg_default = Some (PyStr ''none''),
              arg_choices = Some (license_choices env) \<rparr>;
          p6 = add_argument p5
            \<lparr> arg_flags = [''-f'', ''--force''], arg_dest = Some ''force'',
              arg_action = Store_const, arg_const = PyBool True,
              arg_default = Some (PyBool False), arg_choices = None \<rparr>;
          p7 = add_argument p6
            \<lparr> arg_flags = [''-U'', ''--update''], arg_dest = Some ''update'',
              arg_action = Store_const, arg_const = PyBool True,
              arg_default = Some (PyBool False), arg_choices = None \<rparr>;
          group = add_mutually_exclusive_group p7;
          p8 = group_add_argument group
            \<lparr> arg_flags = [''--pretend'', ''--dry-run''], arg_dest = Some ''pretend'',
              arg_action = Store_const, arg_const = PyBool True,
              arg_default = Some (PyBool False), arg_choices = None \<rparr>;
          p9 = group_add_argument p8
            \<lparr> arg_flags = [''--list-actions''], arg_dest = Some ''command'',
              arg_action = Store_const, arg_const = PyFunc List_actions,
              arg_default = None, arg_choices = None \<rparr>;
          p10 = add_argument p9
            \<lparr> arg_flags = [''-v'', ''--version''], arg_dest = None,
              arg_action = Version, arg_const = PyNone, arg_default = None,
              arg_choices = None \<rparr>
      in add_argument p10
            \<lparr> arg_flags = [''-q'', ''--quiet''], arg_dest = Some ''log_level'',
              arg_action = Store_const, arg_const = PyStr ''CRITICAL'',
              arg_default = None, arg_choices = None \<rparr>)"

text \<open>
  The parser that \<open>parse_args\<close> builds: the defaults are set first, then every function
  of \<open>cli_creators + cli_extenders\<close> adds its arguments. The entry points found by
  \<open>iter_entry_points\<close> are not part of \<open>cli.py\<close>; the model is the parser with none
  registered.
\<close>

definition cli_parser :: "environment \<Rightarrow> parser" where
  "cli_parser env =
     add_default_args env
       (set_defaults ArgumentParser
          [(''log_level'', PyStr ''INFO''), (''extensions'', PyList []),
           (''command'', PyFunc Run_scaffold)])"


subsection \<open>argparse: classifying the argument strings\<close>

text \<open>
  An option tuple is \<open>(action, option_string, sep, explicit_arg)\<close>; the action is \<open>None\<close>
  for a string that looks like an option the parser does not have.
\<close>

type_synonym option_tuple = "action option \<times> string \<times> string option \<times> string option"

definition startswith :: "string \<Rightarrow> string \<Rightarrow> bool" where
  "startswith s pre \<longleftrightarrow> take (length pre) s = pre"

text \<open>\<open>str.partition('=')\<close>; the separator is empty when the string has none.\<close>

definition partition_eq :: "string \<Rightarrow> string \<times> string \<times> string" where
  "partition_eq s =
     (if CHR ''='' \<in> set s
      then (takeWhile (\<lambda>c. c \<noteq> CHR ''='') s, ''='',
            drop 1 (dropWhile (\<lambda>c. c \<noteq> CHR ''='') s))
      else (s, [], []))"

definition is_digit :: "char \<Rightarrow> bool" where
  "is_digit c \<longleftrightarrow> c \<in> set ''0123456789''"

text \<open>
  \<open>_negative_number_matcher\<close>, the pattern \<open>^-\d+$|^-\d*\.\d+$\<close>; the dollar also matches
  before a newline that ends the string.
\<close>

definition negative_number :: "string \<Rightarrow> bool" where
  "negative_number s =
     (let body = (if s \<noteq> [] \<and> last s = CHR 0x0A then butlast s else s) in
      body \<noteq> [] \<and> hd body = CHR ''-'' \<and>
      (let ds = tl body; frac = dropWhile is_digit ds in
       (ds \<noteq> [] \<and> frac = []) \<or>
       (frac \<noteq> [] \<and> hd frac = CHR ''.'' \<and> tl frac \<noteq> [] \<and> list_all is_digit (tl frac))))"

definition get_option_tuples :: "parser \<Rightarrow> string \<Rightarrow> option_tuple list" where
  "get_option_tuples p option_string =
     (if hd (tl option_string) \<in> set prefix_chars then
        (case partition_eq option_string of (option_prefix, sep, explicit_arg) \<Rightarrow>
           map (\<lambda>(os, a).
                  (Some a, os, if sep = [] then None else Some sep,
                   if sep = [] then None else Some explicit_arg))
             (filter (\<lambda>(os, a). startswith os option_prefix) (option_string_actions p)))
      else
        concat (map (\<lambda>(os, a).
                  if os = take 2 option_string
                  then [(Some a, os, Some [], Some (drop 2 option_string))]
                  else if startswith os option_string
                  then [(Some a, os, None, None)]
                  else [])
          (option_string_actions p)))"

text \<open>
  \<open>_parse_optional\<close>: \<open>None\<close> for a string meant as a positional, an option tuple for an
  option, and an exit with status 2 for an ambiguous abbreviation.
\<close>

definition parse_optional :: "parser \<Rightarrow> string \<Rightarrow> error + option_tuple option" where
  "parse_optional p arg_string =
     (if arg_string = [] then Inr None
      else if hd arg_string \<notin> set prefix_chars then Inr None
      else case map_of (option_string_actions p) arg_string of
        Some a \<Rightarrow> Inr (Some (Some a, arg_string, None, None))
      | None \<Rightarrow>
          if length arg_string = 1 then Inr None
          else case partition_eq arg_string of (option_string, sep, explicit_arg) \<Rightarrow>
            (case (if sep \<noteq> [] then map_of (option_string_actions p) option_string else None) of
               Some a \<Rightarrow> Inr (Some (Some a, option_string, Some sep, Some explicit_arg))
             | None \<Rightarrow>
                 (let option_tuples = get_option_tuples p arg_string in
                  if length option_tuples > 1 then Inl (SystemExit 2)
                  else if length option_tuples = 1 then Inr (Some (hd option_tuples))
                  else if negative_number arg_string then Inr None
                  else if CHR '' '' \<in> set arg_string then Inr None
                  else Inr (Some (None, arg_string, None, None)))))"

text \<open>
  The first loop of \<open>_parse_known_args\<close>: it yields, for every argument string, its
  letter in \<open>arg_strings_pattern\<close> (\<open>O\<close> for an option, \<open>A\<close> for an argument, \<open>-\<close> for the
  first \<open>--\<close>) and its entry in \<open>option_string_indices\<close>. Every string after \<open>--\<close> is an
  argument and is not looked at.
\<close>

fun classify :: "parser \<Rightarrow> string list \<Rightarrow> error + (char \<times> option_tuple option) list" where
  "classify p [] = Inr []"
| "classify p (arg_string # rest) =
     (if arg_string = ''--''
      then Inr ((CHR ''-'', None) # map (\<lambda>_. (CHR ''A'', None)) rest)
      else case parse_optional p arg_string of
        Inl e \<Rightarrow> Inl e
      | Inr option_tuple \<Rightarrow>
          (case classify p rest of
             Inl e \<Rightarrow> Inl e
           | Inr more_parts \<Rightarrow>
               Inr ((if option_tuple = None then CHR ''A'' else CHR ''O'', option_tuple)
                    # more_parts)))"

subsection \<open>argparse: argument files\<close>

text \<open>
  \<open>str.splitlines\<close>. A character of the model is a code point below 256, so the line
  boundaries are those of \<open>str.splitlines\<close> in that range, the next-line character
  \<open>U+0085\<close> included; the two other boundaries, \<open>U+2028\<close> and \<open>U+2029\<close>, are not characters
  of the model. A carriage return followed by a line feed is one boundary, and a final
  boundary opens no empty last line.
\<close>

definition line_boundaries :: string where
  "line_boundaries =
     [CHR 0x0A, CHR 0x0B, CHR 0x0C, CHR 0x0D, CHR 0x1C, CHR 0x1D, CHR 0x1E, CHR 0x85]"

fun splitlines_from :: "string \<Rightarrow> string \<Rightarrow> string list" where
  "splitlines_from line [] = (if line = [] then [] else [line])"
| "splitlines_from line [c] =
     (if c \<in> set line_boundaries then [line] else [line @ [c]])"
| "splitlines_from line (c # d # rest) =
     (if c = CHR 0x0D \<and> d = CHR 0x0A then line # splitlines_from [] rest
      else if c \<in> set line_boundaries then line # splitlines_from [] (d # rest)
      else splitlines_from (line @ [c]) (d # rest))"

definition splitlines :: "string \<Rightarrow> string list" where
  "splitlines s = splitlines_from [] s"

text \<open>
  The two nested \<open>for\<close> loops that read one argument file: every line goes through
  \<open>convert_arg_line_to_args\<close>, which \<open>cli.py\<close> overrides, and the tokens are collected in
  order. A \<open>ValueError\<close> of the lexer is not caught.
\<close>

fun args_of_lines :: "string list \<Rightarrow> error + string list" where
  "args_of_lines [] = Inr []"
| "args_of_lines (arg_line # rest) =
     (case convert_arg_line_to_args arg_line of
        Inl e \<Rightarrow> Inl e
      | Inr line_args \<Rightarrow>
          (case args_of_lines rest of
             Inl e \<Rightarrow> Inl e
           | Inr more_args \<Rightarrow> Inr (line_args @ more_args)))"

text \<open>
  \<open>_read_args_from_files\<close>. An argument that starts with \<open>@\<close> is replaced by the expanded
  tokens of the file it names; a file that cannot be read ends the run with status 2.
  The first argument counts the nested calls that are still allowed.
\<close>

fun read_args_from_files :: "nat \<Rightarrow> environment \<Rightarrow> string list \<Rightarrow> error + string list" where
  "read_args_from_files 0 env arg_strings = Inl RecursionError"
| "read_args_from_files (Suc depth) env [] = Inr []"
| "read_args_from_files (Suc depth) env (arg_string # rest) =
     (if arg_string = [] \<or> hd arg_string \<notin> set fromfile_prefix_chars then
        (case read_args_from_files (Suc depth) env rest of
           Inl e \<Rightarrow> Inl e
         | Inr new_arg_strings \<Rightarrow> Inr (arg_string # new_arg_strings))
      else
        (case file_contents env (tl arg_string) of
           None \<Rightarrow> Inl (SystemExit 2)
         | Some text \<Rightarrow>
             (case args_of_lines (splitlines text) of
                Inl e \<Rightarrow> Inl e
              | Inr file_args \<Rightarrow>
                  (case read_args_from_files depth env file_args of
                     Inl e \<Rightarrow> Inl e
                   | Inr expanded \<Rightarrow>
                       (case read_args_from_files (Suc depth) env rest of
                          Inl e \<Rightarrow> Inl e
                        | Inr new_arg_strings \<Rightarrow> Inr (expanded @ new_arg_strings))))))"


subsection \<open>argparse: matching and taking actions\<close>

text \<open>
  The state of one run of \<open>_parse_known_args\<close>: the namespace, the two sets of seen
  actions, the positionals still to be parsed and the extras. \<open>taken\<close> is a history
  variable that Python does not have: every call of \<open>take_action\<close> appends the index of
  the argument string that caused it, the action and the value it received.
\<close>

record parse_state =
  namespace :: "string \<rightharpoonup> py_value"
  seen_actions :: "action set"
  seen_non_default_actions :: "action set"
  positionals :: "action list"
  extras :: "string list"
  taken :: "(nat \<times> action \<times> py_value) list"

definition nargs_count :: "action \<Rightarrow> nat" where
  "nargs_count a = (case nargs a of None \<Rightarrow> 1 | Some n \<Rightarrow> n)"

definition dashes :: "string \<Rightarrow> nat" where
  "dashes pat = length (takeWhile (\<lambda>c. c = CHR ''-'') pat)"

text \<open>\<open>n\<close> times an \<open>A\<close> followed by any number of dashes; the result is the length matched.\<close>

fun match_As :: "nat \<Rightarrow> string \<Rightarrow> nat option" where
  "match_As 0 pat = Some 0"
| "match_As (Suc n) [] = None"
| "match_As (Suc n) (c # cs) =
     (if c = CHR ''A''
      then map_option (\<lambda>k. Suc (dashes cs) + k) (match_As n (drop (dashes cs) cs))
      else None)"

text \<open>
  \<open>re.match(_get_nargs_pattern(action), pattern)\<close> and the length of its group: an
  optional takes exactly its number of \<open>A\<close>s, a positional also takes the dashes before,
  between and after them.
\<close>

definition match_nargs_pattern :: "action \<Rightarrow> string \<Rightarrow> nat option" where
  "match_nargs_pattern a pat =
     (if option_strings a \<noteq> [] then
        (if take (nargs_count a) pat = replicate (nargs_count a) CHR ''A''
         then Some (nargs_count a) else None)
      else map_option (\<lambda>k. dashes pat + k) (match_As (nargs_count a) (drop (dashes pat) pat)))"

fun match_groups :: "action list \<Rightarrow> string \<Rightarrow> nat list option" where
  "match_groups [] pat = Some []"
| "match_groups (a # as) pat =
     (case match_nargs_pattern a pat of
        None \<Rightarrow> None
      | Some k \<Rightarrow> map_option (\<lambda>ks. k # ks) (match_groups as (drop k pat)))"

text \<open>
  \<open>_match_arguments_partial\<close>: the longest prefix of the positionals whose patterns match
  together, tried from the whole list down to one action.
\<close>

fun match_slices :: "nat \<Rightarrow> action list \<Rightarrow> string \<Rightarrow> nat list" where
  "match_slices 0 acts pat = []"
| "match_slices (Suc i) acts pat =
     (case match_groups (take (Suc i) acts) pat of
        Some counts \<Rightarrow> counts
      | None \<Rightarrow> match_slices i acts pat)"

definition match_arguments_partial :: "action list \<Rightarrow> string \<Rightarrow> nat list" where
  "match_arguments_partial acts pat = match_slices (length acts) acts pat"

definition check_value :: "action \<Rightarrow> string \<Rightarrow> bool" where
  "check_value a v = (case choices a of None \<Rightarrow> True | Some cs \<Rightarrow> v \<in> set cs)"

text \<open>
  \<open>_get_values\<close> for these actions (the type is the identity): a positional loses its
  first \<open>--\<close>; one string for an action with \<open>nargs=None\<close> is a single value, anything
  else is a list. A value outside the choices ends the run with status 2.
\<close>

definition get_values :: "action \<Rightarrow> string list \<Rightarrow> error + py_value" where
  "get_values a arg_strings =
     (let strings = (if option_strings a = [] then remove1 ''--'' arg_strings else arg_strings) in
      if length strings = 1 \<and> nargs a = None then
        (if check_value a (hd strings) then Inr (PyStr (hd strings)) else Inl (SystemExit 2))
      else
        (if list_all (check_value a) strings then Inr (PyList strings) else Inl (SystemExit 2)))"

text \<open>
  \<open>action_conflicts\<close>: for an action of a mutually exclusive group, the other members of
  the group.
\<close>

definition action_conflicts :: "parser \<Rightarrow> action \<Rightarrow> action list" where
  "action_conflicts p a =
     concat (map (\<lambda>g. concat (map (\<lambda>i. if g ! i = a then take i g @ drop (Suc i) g else [])
                                [0..<length g]))
               (mutually_exclusive_groups p))"

text \<open>
  Calling the action object: \<open>store\<close> sets the value, \<open>store_const\<close> the constant, \<open>help\<close>
  and \<open>version\<close> print and leave with status 0.
\<close>

definition call_action :: "action \<Rightarrow> py_value \<Rightarrow> parse_state \<Rightarrow> error + parse_state" where
  "call_action a v st =
     (case kind a of
        Store \<Rightarrow> Inr (st \<lparr> namespace := (namespace st)(dest a \<mapsto> v) \<rparr>)
      | Store_const \<Rightarrow> Inr (st \<lparr> namespace := (namespace st)(dest a \<mapsto> const_value a) \<rparr>)
      | Help \<Rightarrow> Inl (SystemExit 0)
      | Version \<Rightarrow> Inl (SystemExit 0))"

text \<open>
  \<open>take_action\<close>. The value that \<open>_get_values\<close> returns is a string of the command line
  or a new list, which is never the object \<open>action.default\<close>, so the action always counts
  as seen with a non-default value.
\<close>

definition take_action ::
  "parser \<Rightarrow> nat \<Rightarrow> parse_state \<Rightarrow> action \<times> string list \<times> string option \<Rightarrow> error + parse_state"
where
  "take_action p index st tup =
     (case tup of (a, argument_strings, option_string) \<Rightarrow>
        (case get_values a argument_strings of
           Inl e \<Rightarrow> Inl e
         | Inr argument_values \<Rightarrow>
             (let st1 = st \<lparr> seen_actions := insert a (seen_actions st),
                             seen_non_default_actions := insert a (seen_non_default_actions st),
                             taken := taken st @ [(index, a, argument_values)] \<rparr>
              in if list_ex (\<lambda>conflict_action. conflict_action \<in> seen_non_default_actions st1)
                      (action_conflicts p a)
                 then Inl (SystemExit 2)
                 else call_action a argument_values st1)))"

fun take_actions ::
  "parser \<Rightarrow> nat \<Rightarrow> parse_state \<Rightarrow> (action \<times> string list \<times> string option) list \<Rightarrow>
   error + parse_state"
where
  "take_actions p index st [] = Inr st"
| "take_actions p index st (tup # tups) =
     (case take_action p index st tup of
        Inl e \<Rightarrow> Inl e
      | Inr st' \<Rightarrow> take_actions p index st' tups)"


subsection \<open>argparse: consuming the argument strings\<close>

text \<open>
  \<open>consume_positionals\<close>: the positionals that match at \<open>start_index\<close> take their argument
  strings one after the other and leave the list of positionals.
\<close>

fun take_positionals ::
  "parser \<Rightarrow> string list \<Rightarrow> nat \<Rightarrow> parse_state \<Rightarrow> (action \<times> nat) list \<Rightarrow>
   error + nat \<times> parse_state"
where
  "take_positionals p arg_strings start_index st [] = Inr (start_index, st)"
| "take_positionals p arg_strings start_index st ((a, arg_count) # rest) =
     (case take_action p start_index st
             (a, take arg_count (drop start_index arg_strings), None) of
        Inl e \<Rightarrow> Inl e
      | Inr st' \<Rightarrow> take_positionals p arg_strings (start_index + arg_count) st' rest)"

definition consume_positionals ::
  "parser \<Rightarrow> string list \<Rightarrow> string \<Rightarrow> nat \<Rightarrow> parse_state \<Rightarrow> error + nat \<times> parse_state"
where
  "consume_positionals p arg_strings arg_strings_pattern start_index st =
     (let arg_counts =
            match_arguments_partial (positionals st) (drop start_index arg_strings_pattern)
      in case take_positionals p arg_strings start_index st (zip (positionals st) arg_counts) of
           Inl e \<Rightarrow> Inl e
         | Inr (stop_index, st') \<Rightarrow>
             Inr (stop_index,
                  st' \<lparr> positionals := drop (length arg_counts) (positionals st') \<rparr>))"

text \<open>
  The \<open>while True\<close> loop of \<open>consume_optional\<close> once the option is known. It returns the
  action tuples, the extras it found and the index at which the arguments of the
  option stop. An explicit argument after a flag of one dash is read as further
  flags of one dash.
\<close>

lemma length_tl_tl: "xs \<noteq> [] \<Longrightarrow> tl xs \<noteq> [] \<Longrightarrow> Suc (length xs - Suc (Suc 0)) \<le> length xs"
  by (cases xs; cases "tl xs") auto

function option_loop ::
  "parser \<Rightarrow> string list \<Rightarrow> string \<Rightarrow> nat \<Rightarrow> action \<Rightarrow> string \<Rightarrow> string option \<Rightarrow>
   string option \<Rightarrow> (action \<times> string list \<times> string option) list \<Rightarrow>
   error + (action \<times> string list \<times> string option) list \<times> string list \<times> nat"
where
  "option_loop p arg_strings arg_strings_pattern start_index a option_string sep
       explicit_arg action_tuples =
     (case explicit_arg of
        Some ea \<Rightarrow>
          (case match_nargs_pattern a ''A'' of
             None \<Rightarrow> Inl (SystemExit 2)
           | Some arg_count \<Rightarrow>
               if arg_count = 0 \<and> hd (tl option_string) \<notin> set prefix_chars \<and> ea \<noteq> [] then
                 (if (sep \<noteq> None \<and> sep \<noteq> Some []) \<or> hd ea \<in> set prefix_chars
                  then Inl (SystemExit 2)
                  else
                    (case map_of (option_string_actions p) [hd option_string, hd ea] of
                       Some a' \<Rightarrow>
                         (if tl ea = [] then
                            option_loop p arg_strings arg_strings_pattern start_index a'
                              [hd option_string, hd ea] None None
                              (action_tuples @ [(a, [], Some option_string)])
                          else if hd (tl ea) = CHR ''='' then
                            option_loop p arg_strings arg_strings_pattern start_index a'
                              [hd option_string, hd ea] (Some ''='') (Some (tl (tl ea)))
                              (action_tuples @ [(a, [], Some option_string)])
                          else
                            option_loop p arg_strings arg_strings_pattern start_index a'
                              [hd option_string, hd ea] (Some []) (Some (tl ea))
                              (action_tuples @ [(a, [], Some option_string)]))
                     | None \<Rightarrow>
                         Inr (action_tuples @ [(a, [], Some option_string)],
                              [hd option_string # ea], start_index + 1)))
               else if arg_count = 1 then
                 Inr (action_tuples @ [(a, [ea], Some option_string)], [], start_index + 1)
               else Inl (SystemExit 2))
      | None \<Rightarrow>
          (case match_nargs_pattern a (drop (start_index + 1) arg_strings_pattern) of
             None \<Rightarrow> Inl (SystemExit 2)
           | Some arg_count \<Rightarrow>
               Inr (action_tuples @
                      [(a, take arg_count (drop (start_index + 1) arg_strings),
                        Some option_string)],
                    [], start_index + 1 + arg_count)))"
  by pat_completeness auto
termination
  by (relation "measure (\<lambda>(p, args, pat, i, a, os, sep, ea, tups).
                  case ea of None \<Rightarrow> 0 | Some e \<Rightarrow> Suc (length e))")
     (auto simp: less_Suc_eq_le length_tl_tl)

declare option_loop.simps [simp del]

text \<open>
  \<open>consume_optional\<close>: an option string the parser does not know goes to the extras;
  otherwise the action tuples are taken in order.
\<close>

definition consume_optional ::
  "parser \<Rightarrow> string list \<Rightarrow> (char \<times> option_tuple option) list \<Rightarrow> nat \<Rightarrow> parse_state \<Rightarrow>
   error + nat \<times> parse_state"
where
  "consume_optional p arg_strings parts start_index st =
     (case snd (parts ! start_index) of
        None \<Rightarrow> Inl (KeyError ''option_string_indices'')
      | Some (None, option_string, sep, explicit_arg) \<Rightarrow>
          Inr (start_index + 1, st \<lparr> extras := extras st @ [arg_strings ! start_index] \<rparr>)
      | Some (Some a, option_string, sep, explicit_arg) \<Rightarrow>
          (case option_loop p arg_strings (map fst parts) start_index a option_string sep
                  explicit_arg [] of
             Inl e \<Rightarrow> Inl e
           | Inr (action_tuples, new_extras, stop) \<Rightarrow>
               (case take_actions p start_index (st \<lparr> extras := extras st @ new_extras \<rparr>)
                       action_tuples of
                  Inl e \<Rightarrow> Inl e
                | Inr st' \<Rightarrow> Inr (stop, st'))))"


text \<open>
  The indices of the option strings, and one pass through the body of the loop
  \<open>while start_index <= max_option_string_index\<close>: positionals before the next option
  are consumed; when none could be, the strings up to the next option are extras and
  the option is consumed.
\<close>

definition option_string_indices :: "(char \<times> option_tuple option) list \<Rightarrow> nat list" where
  "option_string_indices parts = filter (\<lambda>i. snd (parts ! i) \<noteq> None) [0..<length parts]"

definition loop_condition :: "(char \<times> option_tuple option) list \<Rightarrow> nat \<Rightarrow> bool" where
  "loop_condition parts start_index \<longleftrightarrow>
     option_string_indices parts \<noteq> [] \<and>
     start_index \<le> Max (set (option_string_indices parts))"

definition next_option_string_index :: "(char \<times> option_tuple option) list \<Rightarrow> nat \<Rightarrow> nat" where
  "next_option_string_index parts start_index =
     Min (set (filter (\<lambda>index. index \<ge> start_index) (option_string_indices parts)))"

definition loop_body ::
  "parser \<Rightarrow> string list \<Rightarrow> (char \<times> option_tuple option) list \<Rightarrow> nat \<Rightarrow> parse_state \<Rightarrow>
   error + nat \<times> parse_state"
where
  "loop_body p arg_strings parts start_index st =
     (let next_index = next_option_string_index parts start_index in
      case (if start_index \<noteq> next_index
            then consume_positionals p arg_strings (map fst parts) start_index st
            else Inr (start_index, st)) of
        Inl e \<Rightarrow> Inl e
      | Inr (positionals_end_index, st1) \<Rightarrow>
          if start_index \<noteq> next_index \<and> positionals_end_index > start_index
          then Inr (positionals_end_index, st1)
          else if positionals_end_index \<notin> set (option_string_indices parts)
          then consume_optional p arg_strings parts next_index
                 (st1 \<lparr> extras := extras st1 @
                          take (next_index - positionals_end_index)
                            (drop positionals_end_index arg_strings) \<rparr>)
          else consume_optional p arg_strings parts positionals_end_index st1)"

text \<open>
  The loop runs while its body moves the index forward, which it always does; a body
  that did not would stop the run here, where Python would spin.
\<close>

function main_loop ::
  "parser \<Rightarrow> string list \<Rightarrow> (char \<times> option_tuple option) list \<Rightarrow> nat \<Rightarrow> parse_state \<Rightarrow>
   error + nat \<times> parse_state"
where
  "main_loop p arg_strings parts start_index st =
     (if loop_condition parts start_index then
        (case loop_body p arg_strings parts start_index st of
           Inl e \<Rightarrow> Inl e
         | Inr (start_index', st') \<Rightarrow>
             if start_index' > start_index
             then main_loop p arg_strings parts start_index' st'
             else Inl RecursionError)
      else Inr (start_index, st))"
  by pat_completeness auto
termination
  by (relation "measure (\<lambda>(p, args, parts, i, st).
                  Suc (Max (set (option_string_indices parts))) - i)")
     (auto simp: loop_condition_def)

declare main_loop.simps [simp del]

text \<open>
  \<open>parse_known_args\<close>: the namespace starts with the defaults of the actions and of the
  parser; the argument files are expanded, the strings classified and consumed, and a
  required action that was not seen ends the run with status 2.
\<close>

definition initial_namespace :: "parser \<Rightarrow> string \<rightharpoonup> py_value" where
  "initial_namespace p =
     (let from_actions =
            fold (\<lambda>a ns. if dest a \<noteq> SUPPRESS \<and> ns (dest a) = None \<and>
                             default_value a \<noteq> PyStr SUPPRESS
                          then ns(dest a \<mapsto> default_value a) else ns)
              (actions p) Map.empty
      in fold (\<lambda>(d, v) ns. if ns d = None then ns(d \<mapsto> v) else ns) (defaults p) from_actions)"

definition initial_state :: "parser \<Rightarrow> parse_state" where
  "initial_state p =
     \<lparr> namespace = initial_namespace p, seen_actions = {}, seen_non_default_actions = {},
       positionals = filter (\<lambda>a. option_strings a = []) (actions p),
       extras = [], taken = [] \<rparr>"

definition run_parser :: "parser \<Rightarrow> string list \<Rightarrow> error + parse_state" where
  "run_parser p arg_strings =
     (case classify p arg_strings of
        Inl e \<Rightarrow> Inl e
      | Inr parts \<Rightarrow>
          (case main_loop p arg_strings parts 0 (initial_state p) of
             Inl e \<Rightarrow> Inl e
           | Inr (start_index, st) \<Rightarrow>
               (case consume_positionals p arg_strings (map fst parts) start_index st of
                  Inl e \<Rightarrow> Inl e
                | Inr (stop_index, st') \<Rightarrow>
                    if list_ex (\<lambda>a. a \<notin> seen_actions st' \<and> required a) (actions p)
                    then Inl (SystemExit 2)
                    else Inr (st' \<lparr> extras := extras st' @ drop stop_index arg_strings \<rparr>))))"

definition parse_known_args ::
  "parser \<Rightarrow> environment \<Rightarrow> string list \<Rightarrow> error + (string \<rightharpoonup> py_value) \<times> string list"
where
  "parse_known_args p env args =
     (case read_args_from_files (recursion_limit env) env args of
        Inl e \<Rightarrow> Inl e
      | Inr arg_strings \<Rightarrow>
          (case run_parser p arg_strings of
             Inl e \<Rightarrow> Inl e
           | Inr st \<Rightarrow> Inr (namespace st, extras st)))"

text \<open>\<open>ArgumentParser.parse_args\<close>: unrecognized arguments end the run with status 2.\<close>

definition parser_parse_args ::
  "parser \<Rightarrow> environment \<Rightarrow> string list \<Rightarrow> error + (string \<rightharpoonup> py_value)"
where
  "parser_parse_args p env args =
     (case parse_known_args p env args of
        Inl e \<Rightarrow> Inl e
      | Inr (ns, argv) \<Rightarrow> if argv \<noteq> [] then Inl (SystemExit 2) else Inr ns)"


subsection \<open>parse_args\<close>

text \<open>\<open>str.rstrip(os.sep)\<close>.\<close>

definition rstrip :: "char \<Rightarrow> string \<Rightarrow> string" where
  "rstrip c s = rev (dropWhile (\<lambda>x. x = c) (rev s))"

text \<open>
  \<open>getattr(logging, name)\<close> for the names of the logging levels; any other name is
  reported as a missing attribute.
\<close>

definition logging_levels :: "(string \<times> int) list" where
  "logging_levels =
     [(''CRITICAL'', 50), (''FATAL'', 50), (''ERROR'', 40), (''WARNING'', 30),
      (''WARN'', 30), (''INFO'', 20), (''DEBUG'', 10), (''NOTSET'', 0)]"

text \<open>
  The profile step of \<open>parse_args\<close>: unless the variable \<open>PYSCAFFOLD_PROFILE\<close> is \<open>none\<close>,
  a reference to the argument file of the profile is put in front of the arguments
  when that file exists.
\<close>

definition with_profile :: "environment \<Rightarrow> string list \<Rightarrow> string list" where
  "with_profile env args =
     (let profile = environ env ''PYSCAFFOLD_PROFILE'' in
      if profile \<noteq> Some ''none'' then
        (let args_file = get_args_file env profile in
         if path_exists env args_file then (''@'' @ args_file) # args else args)
      else args)"

text \<open>
  The end of \<open>parse_args\<close>, from the namespace to the returned dictionary: the project
  loses its trailing separators, the name of the log level becomes its number, and the
  keys bound to \<open>None\<close> are left out.
\<close>

definition finish_opts :: "(string \<rightharpoonup> py_value) \<Rightarrow> error + (string \<rightharpoonup> py_value)" where
  "finish_opts opts =
     (case opts ''project'' of
        None \<Rightarrow> Inl (KeyError ''project'')
      | Some (PyStr project) \<Rightarrow>
          (let opts1 = opts(''project'' \<mapsto> PyStr (rstrip os_sep project)) in
           case opts1 ''log_level'' of
             None \<Rightarrow> Inl (KeyError ''log_level'')
           | Some (PyStr name) \<Rightarrow>
               (case map_of logging_levels name of
                  None \<Rightarrow> Inl (AttributeError name)
                | Some level \<Rightarrow>
                    (let opts2 = opts1(''log_level'' \<mapsto> PyInt level) in
                     Inr (\<lambda>k. case opts2 k of Some PyNone \<Rightarrow> None | v \<Rightarrow> v)))
           | Some _ \<Rightarrow> Inl (TypeError ''getattr''))
      | Some _ \<Rightarrow> Inl (AttributeError ''rstrip''))"

definition parse_args :: "environment \<Rightarrow> string list \<Rightarrow> error + (string \<rightharpoonup> py_value)" where
  "parse_args env args =
     (if old_setuptools env then Inl OldSetuptools
      else case parser_parse_args (cli_parser env) env (with_profile env args) of
        Inl e \<Rightarrow> Inl e
      | Inr opts \<Rightarrow> finish_opts opts)"


subsection \<open>The commands\<close>

text \<open>
  What a command does to the outside: it prints a line, creates a file or directory, or
  runs an external process.
\<close>

datatype effect = Print string | Create string | Run string

text \<open>
  \<open>api.discover_actions\<close>, \<open>get_id\<close> and \<open>ReportFormatter.SPACING\<close> are not in \<open>cli.py\<close>. They
  are parameters here: the function that resolves the plan of actions for a list of
  extensions (or raises), the function that gives the identifier of an action, and a
  string. An action is a value of a type \<open>'a\<close> about which nothing else is known, so the
  model has no way to run one.
\<close>

text \<open>The \<open>for\<close> loop of \<open>list_actions\<close>.\<close>

fun print_actions :: "('a \<Rightarrow> string) \<Rightarrow> string \<Rightarrow> 'a list \<Rightarrow> effect list" where
  "print_actions get_id spacing [] = []"
| "print_actions get_id spacing (a # rest) =
     Print (spacing @ get_id a) # print_actions get_id spacing rest"

definition list_actions ::
  "(py_value \<Rightarrow> error + 'a list) \<Rightarrow> ('a \<Rightarrow> string) \<Rightarrow> string \<Rightarrow> (string \<rightharpoonup> py_value) \<Rightarrow>
   error + effect list"
where
  "list_actions discover_actions get_id spacing opts =
     (case discover_actions (case opts ''extensions'' of Some v \<Rightarrow> v | None \<Rightarrow> PyList []) of
        Inl e \<Rightarrow> Inl e
      | Inr plan \<Rightarrow>
          Inr (Print (''Planned Actions:'' @ [CHR 0x0A]) # print_actions get_id spacing plan))"

text \<open>
  \<open>main\<close>: the options are parsed and the command found under the key \<open>command\<close> is
  called with them. \<open>run_scaffold\<close> calls \<open>api.create_project\<close>, which is not in \<open>cli.py\<close>; its
  effects are a parameter.
\<close>

definition main ::
  "(py_value \<Rightarrow> error + 'a list) \<Rightarrow> ('a \<Rightarrow> string) \<Rightarrow> string \<Rightarrow>
   ((string \<rightharpoonup> py_value) \<Rightarrow> error + effect list) \<Rightarrow> environment \<Rightarrow> string list \<Rightarrow>
   error + effect list"
where
  "main discover_actions get_id spacing run_scaffold env args =
     (case parse_args env args of
        Inl e \<Rightarrow> Inl e
      | Inr opts \<Rightarrow>
          (case opts ''command'' of
             None \<Rightarrow> Inl (KeyError ''command'')
           | Some (PyFunc List_actions) \<Rightarrow> list_actions discover_actions get_id spacing opts
           | Some (PyFunc Run_scaffold) \<Rightarrow> run_scaffold opts
           | Some _ \<Rightarrow> Inl (TypeError ''not callable'')))"

section \<open>Reasoning about a run of the parser\<close>

text \<open>
  The value an action leaves in the namespace, and the namespace that a history of
  taken actions produces from a starting namespace.
\<close>

definition stored :: "action \<Rightarrow> py_value \<Rightarrow> py_value" where
  "stored a v = (if kind a = Store then v else const_value a)"

definition replay :: "(string \<rightharpoonup> py_value) \<Rightarrow> (nat \<times> action \<times> py_value) list \<Rightarrow> (string \<rightharpoonup> py_value)" where
  "replay ns entries = fold (\<lambda>(i, a, v) m. m(dest a \<mapsto> stored a v)) entries ns"

text \<open>
  \<open>steps p i st j st'\<close>: the state \<open>st'\<close> comes from \<open>st\<close> by taking actions of the parser at
  indices that do not decrease from \<open>i\<close> to \<open>j\<close>, and by changes to the extras and to the
  list of positionals that are left.
\<close>

inductive steps :: "parser \<Rightarrow> nat \<Rightarrow> parse_state \<Rightarrow> nat \<Rightarrow> parse_state \<Rightarrow> bool" for p where
  steps_refl: "steps p i st i st"
| steps_extras: "steps p i st j st' \<Longrightarrow> steps p i st j (st' \<lparr> extras := e \<rparr>)"
| steps_positionals:
    "steps p i st j st' \<Longrightarrow> set ps \<subseteq> set (positionals st') \<Longrightarrow>
     steps p i st j (st' \<lparr> positionals := ps \<rparr>)"
| steps_index: "steps p i st j st' \<Longrightarrow> j \<le> k \<Longrightarrow> steps p i st k st'"
| steps_action:
    "steps p i st j st' \<Longrightarrow> take_action p j st' (a, strs, os) = Inr st'' \<Longrightarrow>
     a \<in> set (actions p) \<Longrightarrow> steps p i st j st''"

text \<open>The actions of the history, and what holds in every state that a run reaches.\<close>

definition entries_of :: "parse_state \<Rightarrow> action set" where
  "entries_of st = (\<lambda>(i, a, v). a) ` set (taken st)"

definition mutex_ok :: "parser \<Rightarrow> action set \<Rightarrow> bool" where
  "mutex_ok p seen \<longleftrightarrow>
     (\<forall>g \<in> set (mutually_exclusive_groups p). \<forall>a \<in> set g. \<forall>b \<in> set g.
        a \<noteq> b \<longrightarrow> \<not> (a \<in> seen \<and> b \<in> seen))"

definition run_inv :: "parser \<Rightarrow> nat \<Rightarrow> parse_state \<Rightarrow> bool" where
  "run_inv p i st \<longleftrightarrow>
     sorted (map fst (taken st)) \<and>
     (\<forall>k \<in> set (map fst (taken st)). k \<le> i) \<and>
     namespace st = replay (initial_namespace p) (taken st) \<and>
     seen_non_default_actions st = entries_of st \<and>
     seen_actions st = entries_of st \<and>
     entries_of st \<subseteq> set (actions p) \<and>
     set (positionals st) \<subseteq> set (actions p) \<and>
     mutex_ok p (entries_of st) \<and>
     (\<forall>e \<in> set (taken st). snd (snd e) \<noteq> PyNone)"

text \<open>
  Every option string of the parser belongs to one of its actions, and every option
  tuple of a classified argument list names an action of an option string.
\<close>

definition wf_parser :: "parser \<Rightarrow> bool" where
  "wf_parser p \<longleftrightarrow> snd ` set (option_string_actions p) \<subseteq> set (actions p)"

definition parts_ok :: "parser \<Rightarrow> (char \<times> option_tuple option) list \<Rightarrow> bool" where
  "parts_ok p parts \<longleftrightarrow>
     (\<forall>part \<in> set parts. \<forall>a os sep ea.
        snd part = Some (Some a, os, sep, ea) \<longrightarrow> a \<in> snd ` set (option_string_actions p))"

text \<open>
  The letters of \<open>arg_strings_pattern\<close> agree with \<open>option_string_indices\<close>: the letter is
  \<open>O\<close> exactly for a string with an option tuple. \<open>no_option pat n\<close>: the first \<open>n\<close> letters
  of the pattern exist and none is \<open>O\<close>. \<open>consumed parts n seen\<close>: the action of every
  option tuple before index \<open>n\<close> is among the seen actions.
\<close>

definition parts_shape :: "(char \<times> option_tuple option) list \<Rightarrow> bool" where
  "parts_shape parts \<longleftrightarrow> list_all (\<lambda>part. (fst part = CHR ''O'') = (snd part \<noteq> None)) parts"

definition no_option :: "string \<Rightarrow> nat \<Rightarrow> bool" where
  "no_option pat n \<longleftrightarrow> n \<le> length pat \<and> list_all (\<lambda>c. c \<noteq> CHR ''O'') (take n pat)"

definition consumed :: "(char \<times> option_tuple option) list \<Rightarrow> nat \<Rightarrow> action set \<Rightarrow> bool" where
  "consumed parts n seen \<longleftrightarrow>
     list_all (\<lambda>part. case snd part of Some (Some a, os, sep, ea) \<Rightarrow> a \<in> seen | _ \<Rightarrow> True)
       (take n parts)"

text \<open>
  The history and the option strings. \<open>option_entry\<close>: the entry \<open>(k, b, w)\<close> is one that the
  option string at index \<open>k\<close> produces, that is, \<open>b\<close> is an action of the tuples that
  \<open>consume_optional\<close> builds there and \<open>w\<close> is the value of its argument strings.
  \<open>justified\<close>: every entry of an action with option strings is such an entry, and the
  positionals that are left have no option string. \<open>recorded\<close>: for every option string
  before index \<open>n\<close>, the tuples were built and each of them has its entry in the history.
\<close>

definition option_entry ::
  "parser \<Rightarrow> string list \<Rightarrow> (char \<times> option_tuple option) list \<Rightarrow> nat \<Rightarrow> action \<Rightarrow>
   py_value \<Rightarrow> bool"
where
  "option_entry p args parts k b w \<longleftrightarrow>
     k < length parts \<and>
     (\<exists>a0 os sep ea tups ex stop strs os'.
        snd (parts ! k) = Some (Some a0, os, sep, ea) \<and>
        option_loop p args (map fst parts) k a0 os sep ea [] = Inr (tups, ex, stop) \<and>
        (b, strs, os') \<in> set tups \<and> get_values b strs = Inr w)"

definition justified ::
  "parser \<Rightarrow> string list \<Rightarrow> (char \<times> option_tuple option) list \<Rightarrow> parse_state \<Rightarrow> bool"
where
  "justified p args parts st \<longleftrightarrow>
     (\<forall>a \<in> set (positionals st). option_strings a = []) \<and>
     (\<forall>e \<in> set (taken st). option_strings (fst (snd e)) \<noteq> [] \<longrightarrow>
        option_entry p args parts (fst e) (fst (snd e)) (snd (snd e)))"

definition recorded ::
  "parser \<Rightarrow> string list \<Rightarrow> (char \<times> option_tuple option) list \<Rightarrow> nat \<Rightarrow> parse_state \<Rightarrow> bool"
where
  "recorded p args parts n st \<longleftrightarrow>
     (\<forall>k a0 os sep ea. k < n \<longrightarrow> k < length parts \<longrightarrow>
        snd (parts ! k) = Some (Some a0, os, sep, ea) \<longrightarrow>
        (\<exists>tups ex stop.
           option_loop p args (map fst parts) k a0 os sep ea [] = Inr (tups, ex, stop) \<and>
           (\<forall>t \<in> set tups. \<exists>w. get_values (fst t) (fst (snd t)) = Inr w \<and>
                                (k, fst t, w) \<in> set (taken st))))"

text \<open>The action objects that \<open>ArgumentParser\<close> and \<open>add_default_args\<close> create.\<close>

definition help_action :: action where
  "help_action = \<lparr> option_strings = [''-h'', ''--help''], dest = ''help'', nargs = Some 0,
     const_value = PyNone, default_value = PyStr SUPPRESS, choices = None, required = False,
     kind = Help \<rparr>"

definition project_action :: action where
  "project_action = \<lparr> option_strings = [], dest = ''project'', nargs = None,
     const_value = PyNone, default_value = PyNone, choices = None, required = True,
     kind = Store \<rparr>"

definition package_action :: action where
  "package_action = \<lparr> option_strings = [''-p'', ''--package''], dest = ''package'', nargs = None,
     const_value = PyNone, default_value = PyNone, choices = None, required = False,
     kind = Store \<rparr>"

definition description_action :: action where
  "description_action = \<lparr> option_strings = [''-d'', ''--description''], dest = ''description'',
     nargs = None, const_value = PyNone, default_value = PyNone, choices = None,
     required = False, kind = Store \<rparr>"

definition url_action :: action where
  "url_action = \<lparr> option_strings = [''-u'', ''--url''], dest = ''url'', nargs = None,
     const_value = PyNone, default_value = PyNone, choices = None, required = False,
     kind = Store \<rparr>"

definition license_action :: "environment \<Rightarrow> action" where
  "license_action env = \<lparr> option_strings = [''-l'', ''--license''], dest = ''license'',
     nargs = None, const_value = PyNone, default_value = PyStr ''none'',
     choices = Some (license_choices env), required = False, kind = Store \<rparr>"

definition force_action :: action where
  "force_action = \<lparr> option_strings = [''-f'', ''--force''], dest = ''force'', nargs = Some 0,
     const_value = PyBool True, default_value = PyBool False, choices = None, required = False,
     kind = Store_const \<rparr>"

definition update_action :: action where
  "update_action = \<lparr> option_strings = [''-U'', ''--update''], dest = ''update'', nargs = Some 0,
     const_value = PyBool True, default_value = PyBool False, choices = None, required = False,
     kind = Store_const \<rparr>"

definition pretend_action :: action where
  "pretend_action = \<lparr> option_strings = [''--pretend'', ''--dry-run''], dest = ''pretend'',
     nargs = Some 0, const_value = PyBool True, default_value = PyBool False, choices = None,
     required = False, kind = Store_const \<rparr>"

definition list_actions_action :: action where
  "list_actions_action = \<lparr> option_strings = [''--list-actions''], dest = ''command'',
     nargs = Some 0, const_value = PyFunc List_actions, default_value = PyFunc Run_scaffold,
     choices = None, required = False, kind = Store_const \<rparr>"

definition version_action :: action where
  "version_action = \<lparr> option_strings = [''-v'', ''--version''], dest = ''version'',
     nargs = Some 0, const_value = PyNone, default_value = PyStr SUPPRESS, choices = None,
     required = False, kind = Version \<rparr>"

definition quiet_action :: action where
  "quiet_action = \<lparr> option_strings = [''-q'', ''--quiet''], dest = ''log_level'',
     nargs = Some 0, const_value = PyStr ''CRITICAL'', default_value = PyStr ''INFO'',
     choices = None, required = False, kind = Store_const \<rparr>"

section \<open>The parts of a line of an argument file\<close>

text \<open>
  A line as it is written: blanks and tokens, a token being a sequence of pieces, each
  a stretch of plain text or a quoted substring, and after them possibly a comment.
  Plain text has no blank, no \<open>#\<close>, no quote and no backslash; a quoted substring does not
  hold its own quote, and holds no backslash when the quote is the double quote, inside
  which a backslash escapes. \<open>piece_text\<close> is what is written, \<open>piece_value\<close> what is meant.
\<close>

datatype piece = Text string | Quoted char string

fun piece_text :: "piece \<Rightarrow> string" where
  "piece_text (Text s) = s"
| "piece_text (Quoted q body) = [q] @ body @ [q]"

fun piece_value :: "piece \<Rightarrow> string" where
  "piece_value (Text s) = s"
| "piece_value (Quoted q body) = body"

fun piece_ok :: "piece \<Rightarrow> bool" where
  "piece_ok (Text s) \<longleftrightarrow>
     s \<noteq> [] \<and> list_all (\<lambda>c. c \<notin> set (whitespace @ commenters @ quotes @ escape)) s"
| "piece_ok (Quoted q body) \<longleftrightarrow>
     q \<in> set quotes \<and> q \<notin> set body \<and>
     (q \<in> set escapedquotes \<longrightarrow> list_all (\<lambda>c. c \<notin> set escape) body)"

fun is_quoted :: "piece \<Rightarrow> bool" where
  "is_quoted (Text s) = False"
| "is_quoted (Quoted q body) = True"

text \<open>
  Two tokens are separated by at least one blank. The comment, when there is one,
  starts with \<open>#\<close> and runs to the end of the line.
\<close>

datatype item = Blank char | Token "piece list"

fun item_text :: "item \<Rightarrow> string" where
  "item_text (Blank c) = [c]"
| "item_text (Token ps) = concat (map piece_text ps)"

fun item_ok :: "item \<Rightarrow> bool" where
  "item_ok (Blank c) \<longleftrightarrow> c \<in> set whitespace"
| "item_ok (Token ps) \<longleftrightarrow> ps \<noteq> [] \<and> list_all piece_ok ps"

fun separated :: "item list \<Rightarrow> bool" where
  "separated [] = True"
| "separated [x] = True"
| "separated (Token a # Token b # rest) = False"
| "separated (x # y # rest) = separated (y # rest)"

definition line_text :: "item list \<Rightarrow> string" where
  "line_text items = concat (map item_text items)"

fun tokens_of :: "item list \<Rightarrow> string list" where
  "tokens_of [] = []"
| "tokens_of (Blank c # rest) = tokens_of rest"
| "tokens_of (Token ps # rest) = concat (map piece_value ps) # tokens_of rest"

definition comment_ok :: "string \<Rightarrow> bool" where
  "comment_ok c \<longleftrightarrow> c = [] \<or> (hd c \<in> set commenters \<and> CHR 0x0A \<notin> set (tl c))"

section \<open>An example environment\<close>

text \<open>
  A user whose home directory has a \<open>.config\<close> directory with a default profile in it;
  no profile variable is set.
\<close>

definition example_args_text :: string where
  "example_args_text =
     ''--license mozilla'' @ [CHR 0x0A] @ ''--with-tox # comment'' @ [CHR 0x0A]"

definition example_environ :: "string \<Rightarrow> string option" where
  "example_environ name = (if name = ''HOME'' then Some ''/home/user'' else None)"

definition example_env :: environment where
  "example_env =
     \<lparr> environ = example_environ,
       path_exists = (\<lambda>p. p \<in> set [''/home/user/.config'',
                                  ''/home/user/.config/pyscaffold/default.args'']),
       file_contents = (\<lambda>p.
         if p = ''/home/user/.config/pyscaffold/default.args''
         then Some (''--license mozilla'' @ [CHR 0x0A] @ ''--force # comment'' @ [CHR 0x0A])
         else if p = ''pyscaffold.args''
         then Some example_args_text
         else None),
       expanduser = (\<lambda>p. if take 1 p = ''~'' then ''/home/user'' @ drop 1 p else p),
       old_setuptools = False,
       license_choices = [''none'', ''mozilla'', ''gpl3''],
       recursion_limit = 1000 \<rparr>"


text \<open>
  The lines of the argument file that the tests of the repository write, each with the
  character that ends it; the fourth line ends in a form feed instead of a line feed.
\<close>

definition example_file_lines :: "(string \<times> char) list" where
  "example_file_lines =
     [(''--license mozilla'', CHR 0x0A),
      (''--description '' @ [CHR 0x27] @ ''My Project Description'' @ [CHR 0x27], CHR 0x0A),
      (''--with-pre-commit # A comment'', CHR 0x0A),
      (''--with-tox'', CHR 0x0C),
      (''# Another comment'', CHR 0x0A),
      (''--with-travis'', CHR 0x0A)]"

text \<open>The same user with the profile variable set to \<open>none\<close> and a file \<open>none.args\<close>.\<close>

definition example_env_none :: environment where
  "example_env_none =
     example_env
       \<lparr> environ := (\<lambda>name. if name = ''PYSCAFFOLD_PROFILE'' then Some ''none''
                               else example_environ name),
         path_exists := (\<lambda>p. p \<in> set [''/home/user/.config'',
                                      ''/home/user/.config/pyscaffold/default.args'',
                                      ''/home/user/.config/pyscaffold/none.args'']),
         file_contents := (\<lambda>p.
           if p = ''/home/user/.config/pyscaffold/default.args'' \<or>
              p = ''/home/user/.config/pyscaffold/none.args''
           then Some (''--license mozilla'' @ [CHR 0x0A])
           else None) \<rparr>"

text \<open>The same user with the profile variable set to \<open>work\<close>, a profile that has no file.\<close>

definition example_env_work :: environment where
  "example_env_work =
     example_env
       \<lparr> environ := (\<lambda>name. if name = ''PYSCAFFOLD_PROFILE'' then Some ''work''
                               else example_environ name) \<rparr>"

text \<open>
  The same user with the profile variable set to \<open>work\<close> and a file \<open>work.args\<close> beside the
  file of the default profile.
\<close>

definition example_env_profile :: environment where
  "example_env_profile =
     example_env
       \<lparr> environ := (\<lambda>name. if name = ''PYSCAFFOLD_PROFILE'' then Some ''work''
                               else example_environ name),
         path_exists := (\<lambda>p. p \<in> set [''/home/user/.config'',
                                      ''/home/user/.config/pyscaffold/default.args'',
                                      ''/home/user/.config/pyscaffold/work.args'']),
         file_contents := (\<lambda>p.
           if p = ''/home/user/.config/pyscaffold/work.args''
           then Some (''--description '' @ [CHR 0x27] @ ''From the profile'' @ [CHR 0x27] @
                      '' # comment'' @ [CHR 0x0A])
           else if p = ''/home/user/.config/pyscaffold/default.args''
           then Some (''--license gpl3'' @ [CHR 0x0A])
           else None) \<rparr>"

text \<open>The value of one key of the returned dictionary.\<close>

definition opt_value :: "string \<Rightarrow> error + (string \<rightharpoonup> py_value) \<Rightarrow> error + py_value option" where
  "opt_value key result = (case result of Inl e \<Rightarrow> Inl e | Inr opts \<Rightarrow> Inr (opts key))"

text \<open>The history of a run of the parser.\<close>

definition history_of :: "error + parse_state \<Rightarrow> error + (nat \<times> action \<times> py_value) list" where
  "history_of r = (case r of Inl e \<Rightarrow> Inl e | Inr st \<Rightarrow> Inr (taken st))"

text \<open>A plan of actions, given by the identifiers of the actions.\<close>

definition example_plan :: "py_value \<Rightarrow> error + string list" where
  "example_plan extensions =
     Inr [''pyscaffold.api:get_default_options'', ''pyscaffold.api:verify_options_consistency'',
          ''pyscaffold.structure:define_structure'', ''pyscaffold.structure:create_structure'',
          ''pyscaffold.api:init_git'']"

section \<open>The configuration directory\<close>

lemma first_existing_hit:
  "i < length cs \<Longrightarrow> path_exists env (cs ! i) \<Longrightarrow> (\<forall>j<i. \<not> path_exists env (cs ! j)) \<Longrightarrow>
   first_existing env cs = Some (os_path_join (cs ! i) ''pyscaffold'')"
proof (induction cs arbitrary: i)
  case Nil
  then show ?case by simp
next
  case (Cons c cs)
  show ?case
  proof (cases i)
    case 0
    with Cons.prems show ?thesis by simp
  next
    case (Suc k)
    with Cons.prems have "\<not> path_exists env c" by auto
    moreover have "first_existing env cs = Some (os_path_join (cs ! k) ''pyscaffold'')"
      using Cons.prems Suc by (intro Cons.IH) auto
    ultimately show ?thesis using Suc by simp
  qed
qed

lemma first_existing_none:
  "(\<forall>c \<in> set cs. \<not> path_exists env c) \<Longrightarrow> first_existing env cs = None"
  by (induction cs) auto

lemma expand_osx: "expandvars env OSX_CONFIG =
  (case environ env ''HOME'' of Some h \<Rightarrow> h @ ''/Library/Application Support'' | None \<Rightarrow> OSX_CONFIG)"
  by (simp add: OSX_CONFIG_def is_word_char_def after_brace_def split: option.split)

lemma expand_win: "expandvars env WIN_CONFIG =
  (case environ env ''APPDATA'' of Some h \<Rightarrow> h | None \<Rightarrow> WIN_CONFIG)"
  by (simp add: WIN_CONFIG_def is_word_char_def after_brace_def split: option.split)

lemma expand_xdg: "expandvars env XDG_CONFIG =
  (case environ env ''XDG_CONFIG_HOME'' of Some h \<Rightarrow> h | None \<Rightarrow> XDG_CONFIG)"
  by (simp add: XDG_CONFIG_def is_word_char_def after_brace_def split: option.split)

lemma expand_unix: "expandvars env UNIX_CONFIG =
  (case environ env ''HOME'' of Some h \<Rightarrow> h @ ''/.config'' | None \<Rightarrow> UNIX_CONFIG)"
  by (simp add: UNIX_CONFIG_def is_word_char_def after_brace_def split: option.split)


text \<open>
  Claim C4. \<open>get_config_dir\<close> tries four candidates in order: the application support
  directory under \<open>$HOME\<close>, then \<open>$APPDATA\<close>, \<open>$XDG_CONFIG_HOME\<close> and \<open>$HOME/.config\<close> (a
  variable that is not set stays in the path as it is written). It returns the first
  candidate that exists, joined with \<open>pyscaffold\<close>; when none exists it returns the
  expansion of \<open>~/.pyscaffold\<close>.
\<close>

theorem get_config_dir_first_existing_candidate:
  "candidates env =
     [case environ env ''HOME'' of
        Some h \<Rightarrow> h @ ''/Library/Application Support'' | None \<Rightarrow> OSX_CONFIG,
      case environ env ''APPDATA'' of Some a \<Rightarrow> a | None \<Rightarrow> WIN_CONFIG,
      case environ env ''XDG_CONFIG_HOME'' of Some x \<Rightarrow> x | None \<Rightarrow> XDG_CONFIG,
      case environ env ''HOME'' of Some h \<Rightarrow> h @ ''/.config'' | None \<Rightarrow> UNIX_CONFIG] \<and>
   (\<forall>i < length (candidates env).
      path_exists env (candidates env ! i) \<longrightarrow>
      (\<forall>j < i. \<not> path_exists env (candidates env ! j)) \<longrightarrow>
      get_config_dir env = os_path_join (candidates env ! i) ''pyscaffold'') \<and>
   ((\<forall>c \<in> set (candidates env). \<not> path_exists env c) \<longrightarrow>
      get_config_dir env = expanduser env ''~/.pyscaffold'')"
proof (intro conjI allI impI)
  show "candidates env =
     [case environ env ''HOME'' of
        Some h \<Rightarrow> h @ ''/Library/Application Support'' | None \<Rightarrow> OSX_CONFIG,
      case environ env ''APPDATA'' of Some a \<Rightarrow> a | None \<Rightarrow> WIN_CONFIG,
      case environ env ''XDG_CONFIG_HOME'' of Some x \<Rightarrow> x | None \<Rightarrow> XDG_CONFIG,
      case environ env ''HOME'' of Some h \<Rightarrow> h @ ''/.config'' | None \<Rightarrow> UNIX_CONFIG]"
    by (simp only: candidates_def list.map expand_osx expand_win expand_xdg expand_unix)
next
  fix i
  assume "i < length (candidates env)" "path_exists env (candidates env ! i)"
    "\<forall>j<i. \<not> path_exists env (candidates env ! j)"
  then show "get_config_dir env = os_path_join (candidates env ! i) ''pyscaffold''"
    by (simp add: get_config_dir_def first_existing_hit)
next
  assume "\<forall>c \<in> set (candidates env). \<not> path_exists env c"
  then show "get_config_dir env = expanduser env ''~/.pyscaffold''"
    by (simp add: get_config_dir_def first_existing_none os_path_join_def os_sep_def)
qed

theorem get_config_dir_first_existing_candidate_witness:
  "candidates example_env =
     [''/home/user/Library/Application Support'', ''${APPDATA}'', ''${XDG_CONFIG_HOME}'',
      ''/home/user/.config''] \<and>
   get_config_dir example_env = ''/home/user/.config/pyscaffold'' \<and>
   get_config_dir (example_env \<lparr> path_exists := (\<lambda>p. False) \<rparr>) = ''/home/user/.pyscaffold''"
proof -
  note found = get_config_dir_first_existing_candidate [of example_env]
  note missing =
    get_config_dir_first_existing_candidate [of "example_env \<lparr> path_exists := (\<lambda>p. False) \<rparr>"]
  have env: "environ example_env = example_environ"
    by (simp add: example_env_def)
  have c: "candidates example_env =
     [''/home/user/Library/Application Support'', ''${APPDATA}'', ''${XDG_CONFIG_HOME}'',
      ''/home/user/.config'']"
    unfolding found [THEN conjunct1] env
    by (simp add: example_environ_def WIN_CONFIG_def XDG_CONFIG_def)
  have ex: "path_exists example_env p \<longleftrightarrow>
      p = ''/home/user/.config'' \<or> p = ''/home/user/.config/pyscaffold/default.args''" for p
    by (auto simp add: example_env_def)
  have hit: "path_exists example_env (candidates example_env ! 3)"
    unfolding c ex by simp
  have miss: "\<forall>j<3. \<not> path_exists example_env (candidates example_env ! j)"
  proof (intro allI impI)
    fix j :: nat
    assume "j < 3"
    then have "j = 0 \<or> j = 1 \<or> j = 2" by arith
    then show "\<not> path_exists example_env (candidates example_env ! j)"
      unfolding c ex by auto
  qed
  have len: "3 < length (candidates example_env)"
    unfolding c by simp
  have "get_config_dir example_env = os_path_join (candidates example_env ! 3) ''pyscaffold''"
    using found [THEN conjunct2, THEN conjunct1, rule_format, OF len hit] miss by blast
  then have a: "get_config_dir example_env = ''/home/user/.config/pyscaffold''"
    unfolding c by (simp add: os_path_join_def os_sep_def)
  have b: "get_config_dir (example_env \<lparr> path_exists := (\<lambda>p. False) \<rparr>) = ''/home/user/.pyscaffold''"
    using missing [THEN conjunct2, THEN conjunct2] by (simp add: example_env_def)
  from a b c show ?thesis by simp
qed



section \<open>The tokens of an argument file\<close>

lemma lex_inside_quotes:
  "q \<in> set quotes \<Longrightarrow> q \<notin> set body \<Longrightarrow> (q \<in> set escapedquotes \<longrightarrow> CHR 0x5C \<notin> set body) \<Longrightarrow>
   lex (Some q) e qd tok (body @ [q]) = Inr [tok @ body]"
proof (induction body arbitrary: e qd tok)
  case Nil
  have q: "q = CHR 0x27 \<or> q = CHR 0x22" using Nil.prems(1) by (simp add: quotes_def)
  then show ?case
  proof
    assume "q = CHR 0x27"
    then show ?thesis by (simp add: quotes_def escape_def emit_def)
  next
    assume "q = CHR 0x22"
    then show ?thesis by (simp add: quotes_def escape_def emit_def)
  qed
next
  case (Cons c body)
  have q: "q = CHR 0x27 \<or> q = CHR 0x22" using Cons.prems(1) by (simp add: quotes_def)
  from Cons.prems have cq: "c \<noteq> q" by auto
  from Cons.prems have esc: "\<not> (c \<in> set escape \<and> q \<in> set escapedquotes)"
    by (auto simp: escape_def)
  have IH: "lex (Some q) e True (tok @ [c]) (body @ [q]) = Inr [(tok @ [c]) @ body]"
    using Cons.prems by (intro Cons.IH) auto
  have step: "lex (Some q) e qd tok ((c # body) @ [q]) = lex (Some q) e True (tok @ [c]) (body @ [q])"
    using q
  proof
    assume q1: "q = CHR 0x27"
    show ?thesis using cq esc unfolding q1 by (simp add: quotes_def escapedquotes_def escape_def)
  next
    assume q2: "q = CHR 0x22"
    show ?thesis using cq esc unfolding q2 by (simp add: quotes_def escapedquotes_def escape_def)
  qed
  show ?case unfolding step IH by simp
qed

lemma quoted_is_one_token:
  assumes "q \<in> set quotes" "q \<notin> set body" "q = CHR 0x22 \<longrightarrow> CHR 0x5C \<notin> set body"
  shows "shlex_split ([q] @ body @ [q]) = Inr [body]"
proof -
  have inner: "lex (Some q) CHR '' '' False [] (body @ [q]) = Inr [[] @ body]"
    using assms by (intro lex_inside_quotes) (auto simp: escapedquotes_def)
  have q: "q = CHR 0x27 \<or> q = CHR 0x22" using assms(1) by (simp add: quotes_def)
  then have "shlex_split ([q] @ body @ [q]) = lex (Some q) CHR '' '' False [] (body @ [q])"
  proof
    assume q1: "q = CHR 0x27"
    show ?thesis unfolding q1 shlex_split_def
      by (simp add: quotes_def whitespace_def commenters_def escape_def wordchars_def)
  next
    assume q2: "q = CHR 0x22"
    show ?thesis unfolding q2 shlex_split_def
      by (simp add: quotes_def whitespace_def commenters_def escape_def wordchars_def)
  qed
  then show ?thesis using inner by simp
qed

lemma readline_no_newline: "CHR 0x0A \<notin> set cs \<Longrightarrow> readline cs = []"
  by (induction cs) (auto simp: readline_def)

lemma readline_append:
  "CHR 0x0A \<in> set cs \<Longrightarrow> readline (cs @ more_cs) = readline cs @ more_cs"
  by (induction cs) (auto simp: readline_def)

lemma set_readline: "set (readline cs) \<subseteq> set cs"
  by (induction cs) (auto simp: readline_def dest: in_set_dropD)

lemma lex_comment_at_end:
  assumes "CHR 0x0A \<notin> set rest" "st = CHR '' '' \<or> st = CHR ''a''"
  shows "lex (Some st) e qd tok (CHR ''#'' # rest) = lex (Some st) e qd tok []"
  using assms(2)
proof
  assume st: "st = CHR '' ''"
  show ?thesis unfolding st using assms(1)
    by (simp add: readline_no_newline whitespace_def commenters_def)
next
  assume st: "st = CHR ''a''"
  show ?thesis unfolding st using assms(1)
    by (simp add: readline_no_newline whitespace_def commenters_def emit_def quotes_def escape_def)
qed


lemma lex_comment:
  "CHR 0x0A \<notin> set rest \<Longrightarrow> set line \<inter> set (quotes @ escape) = {} \<Longrightarrow>
   st = CHR '' '' \<or> st = CHR ''a'' \<Longrightarrow>
   lex (Some st) e qd tok (line @ CHR ''#'' # rest) = lex (Some st) e qd tok line"
proof (induction line arbitrary: st e qd tok rule: length_induct)
  case (1 line)
  show ?case
  proof (cases line)
    case Nil
    show ?thesis using "1.prems"(1,3) unfolding Nil append_Nil
      by (rule lex_comment_at_end)
  next
    case (Cons c cs)
    have nq: "c \<notin> set quotes" "c \<notin> set escape" and cs_ok: "set cs \<inter> set (quotes @ escape) = {}"
      using "1.prems"(2) Cons by auto
    have IH: "lex (Some s') e' qd' tok' (cs' @ CHR ''#'' # rest) = lex (Some s') e' qd' tok' cs'"
      if "length cs' \<le> length cs" "set cs' \<inter> set (quotes @ escape) = {}"
         "s' = CHR '' '' \<or> s' = CHR ''a''" for s' e' qd' tok' cs'
      using "1.IH" [rule_format, of cs' s' e' qd' tok'] that "1.prems"(1) Cons by simp
    have IHa: "lex (Some CHR ''a'') e' qd' tok' (cs @ CHR ''#'' # rest) =
               lex (Some CHR ''a'') e' qd' tok' cs" for e' qd' tok'
      using IH [where s' = "CHR ''a''" and cs' = cs] cs_ok by simp
    have IHs: "lex (Some CHR '' '') e' qd' tok' (cs @ CHR ''#'' # rest) =
               lex (Some CHR '' '') e' qd' tok' cs" for e' qd' tok'
      using IH [where s' = "CHR '' ''" and cs' = cs] cs_ok by simp
    have rl: "lex (Some CHR '' '') e' qd' tok' (readline (cs @ CHR ''#'' # rest)) =
              lex (Some CHR '' '') e' qd' tok' (readline cs)" for e' qd' tok'
    proof (cases "CHR 0x0A \<in> set cs")
      case True
      have "length (readline cs) \<le> length cs"
        using length_readline [of cs] by simp
      moreover have "set (readline cs) \<inter> set (quotes @ escape) = {}"
        using set_readline [of cs] cs_ok by blast
      ultimately have "lex (Some CHR '' '') e' qd' tok' (readline cs @ CHR ''#'' # rest) =
                       lex (Some CHR '' '') e' qd' tok' (readline cs)"
        by (intro IH) auto
      then show ?thesis using True by (simp add: readline_append)
    next
      case False
      then have "readline (cs @ CHR ''#'' # rest) = []"
        using "1.prems"(1) by (intro readline_no_newline) auto
      with False show ?thesis by (simp add: readline_no_newline)
    qed
    from "1.prems"(3) show ?thesis
    proof
      assume st: "st = CHR '' ''"
      show ?thesis
        unfolding Cons st using nq
        by (simp add: IHa IHs rl)
    next
      assume st: "st = CHR ''a''"
      show ?thesis
        unfolding Cons st using nq
        by (simp add: IHa IHs rl quotes_def escape_def)
    qed
  qed
qed

lemma comment_is_discarded:
  "CHR 0x0A \<notin> set rest \<Longrightarrow> set line \<inter> set (quotes @ escape) = {} \<Longrightarrow>
   shlex_split (line @ CHR ''#'' # rest) = shlex_split line"
  unfolding shlex_split_def by (rule lex_comment) auto


lemma example_lines:
  "splitlines example_args_text = [''--license mozilla'', ''--with-tox # comment'']"
  by (simp add: example_args_text_def splitlines_def line_boundaries_def)

lemma example_line1: "convert_arg_line_to_args ''--license mozilla'' = Inr [''--license'', ''mozilla'']"
  by (simp add: convert_arg_line_to_args_def shlex_split_def whitespace_def commenters_def
      quotes_def escape_def wordchars_def emit_def)

lemma example_line2: "convert_arg_line_to_args ''--with-tox # comment'' = Inr [''--with-tox'']"
  by (simp add: convert_arg_line_to_args_def shlex_split_def whitespace_def commenters_def
      quotes_def escape_def wordchars_def emit_def readline_def)

lemma example_file_args:
  "args_of_lines (splitlines example_args_text) = Inr [''--license'', ''mozilla'', ''--with-tox'']"
  unfolding example_lines by (simp add: example_line1 example_line2)


lemma lex_text_word:
  "list_all (\<lambda>c. c \<notin> set (whitespace @ commenters @ quotes @ escape)) s \<Longrightarrow>
   lex (Some CHR ''a'') e qd tok (s @ rest) = lex (Some CHR ''a'') e qd (tok @ s) rest"
proof (induction s arbitrary: tok)
  case Nil
  then show ?case by simp
next
  case (Cons c s)
  from Cons.prems have c: "c \<notin> set whitespace" "c \<notin> set commenters" "c \<notin> set quotes"
    "c \<notin> set escape" and s: "list_all (\<lambda>c. c \<notin> set (whitespace @ commenters @ quotes @ escape)) s"
    by auto
  have "lex (Some CHR ''a'') e qd tok ((c # s) @ rest) =
        lex (Some CHR ''a'') e qd (tok @ [c]) (s @ rest)"
    using c by (simp add: quotes_def escape_def)
  also have "\<dots> = lex (Some CHR ''a'') e qd ((tok @ [c]) @ s) rest"
    using s by (rule Cons.IH)
  finally show ?case by simp
qed

lemma lex_text_blank:
  assumes "s \<noteq> []" "list_all (\<lambda>c. c \<notin> set (whitespace @ commenters @ quotes @ escape)) s"
  shows "lex (Some CHR '' '') e qd tok (s @ rest) = lex (Some CHR ''a'') e qd s rest"
proof -
  from assms(1) obtain c cs where s: "s = c # cs" by (cases s) auto
  from assms(2) s have c: "c \<notin> set whitespace" "c \<notin> set commenters" "c \<notin> set quotes"
    "c \<notin> set escape" and cs: "list_all (\<lambda>c. c \<notin> set (whitespace @ commenters @ quotes @ escape)) cs"
    by auto
  have "lex (Some CHR '' '') e qd tok ((c # cs) @ rest) = lex (Some CHR ''a'') e qd [c] (cs @ rest)"
    using c by simp
  also have "\<dots> = lex (Some CHR ''a'') e qd ([c] @ cs) rest"
    using cs by (rule lex_text_word)
  finally show ?thesis by (simp add: s)
qed

lemma lex_quoted_body:
  "q \<in> set quotes \<Longrightarrow> q \<notin> set body \<Longrightarrow>
   (q \<in> set escapedquotes \<longrightarrow> list_all (\<lambda>c. c \<notin> set escape) body) \<Longrightarrow>
   lex (Some q) e qd tok (body @ q # rest) = lex (Some CHR ''a'') e True (tok @ body) rest"
proof (induction body arbitrary: qd tok)
  case Nil
  have q: "q = CHR 0x27 \<or> q = CHR 0x22" using Nil.prems(1) by (simp add: quotes_def)
  then show ?case
  proof
    assume "q = CHR 0x27"
    then show ?thesis by (simp add: quotes_def)
  next
    assume "q = CHR 0x22"
    then show ?thesis by (simp add: quotes_def)
  qed
next
  case (Cons c body)
  have q: "q = CHR 0x27 \<or> q = CHR 0x22" using Cons.prems(1) by (simp add: quotes_def)
  from Cons.prems have cq: "c \<noteq> q" by auto
  from Cons.prems have esc: "\<not> (c \<in> set escape \<and> q \<in> set escapedquotes)"
    by auto
  have IH: "lex (Some q) e True (tok @ [c]) (body @ q # rest) =
            lex (Some CHR ''a'') e True ((tok @ [c]) @ body) rest"
    using Cons.prems by (intro Cons.IH) auto
  have step: "lex (Some q) e qd tok ((c # body) @ q # rest) =
              lex (Some q) e True (tok @ [c]) (body @ q # rest)"
    using q
  proof
    assume q1: "q = CHR 0x27"
    show ?thesis using cq esc unfolding q1 by (simp add: quotes_def escapedquotes_def escape_def)
  next
    assume q2: "q = CHR 0x22"
    show ?thesis using cq esc unfolding q2 by (simp add: quotes_def escapedquotes_def escape_def)
  qed
  show ?case unfolding step IH by simp
qed

lemma lex_quoted:
  assumes "q \<in> set quotes" "q \<notin> set body"
    "q \<in> set escapedquotes \<longrightarrow> list_all (\<lambda>c. c \<notin> set escape) body"
    "st = CHR '' '' \<or> st = CHR ''a''"
  shows "lex (Some st) e qd tok (([q] @ body @ [q]) @ rest) =
         lex (Some CHR ''a'') e True (tok @ body) rest"
proof -
  have q: "q = CHR 0x27 \<or> q = CHR 0x22" using assms(1) by (simp add: quotes_def)
  have "lex (Some st) e qd tok (q # body @ q # rest) = lex (Some q) e qd tok (body @ q # rest)"
    using q
  proof
    assume q1: "q = CHR 0x27"
    from assms(4) show ?thesis
    proof
      assume st: "st = CHR '' ''"
      show ?thesis unfolding q1 st
        by (simp add: quotes_def whitespace_def commenters_def escape_def wordchars_def)
    next
      assume st: "st = CHR ''a''"
      show ?thesis unfolding q1 st
        by (simp add: quotes_def whitespace_def commenters_def escape_def)
    qed
  next
    assume q2: "q = CHR 0x22"
    from assms(4) show ?thesis
    proof
      assume st: "st = CHR '' ''"
      show ?thesis unfolding q2 st
        by (simp add: quotes_def whitespace_def commenters_def escape_def wordchars_def)
    next
      assume st: "st = CHR ''a''"
      show ?thesis unfolding q2 st
        by (simp add: quotes_def whitespace_def commenters_def escape_def)
    qed
  qed
  also have "\<dots> = lex (Some CHR ''a'') e True (tok @ body) rest"
    using assms(1,2,3) by (rule lex_quoted_body)
  finally show ?thesis by simp
qed

lemma lex_piece_word:
  assumes "piece_ok pc"
  shows "lex (Some CHR ''a'') e qd tok (piece_text pc @ rest) =
         lex (Some CHR ''a'') e (qd \<or> is_quoted pc) (tok @ piece_value pc) rest"
proof (cases pc)
  case (Text s)
  with assms show ?thesis by (simp add: lex_text_word)
next
  case (Quoted q body)
  with assms lex_quoted [of q body "CHR ''a''" e qd tok rest] show ?thesis by simp
qed

lemma lex_pieces_word:
  "list_all piece_ok ps \<Longrightarrow>
   lex (Some CHR ''a'') e qd tok (concat (map piece_text ps) @ rest) =
   lex (Some CHR ''a'') e (qd \<or> list_ex is_quoted ps) (tok @ concat (map piece_value ps)) rest"
proof (induction ps arbitrary: qd tok)
  case Nil
  then show ?case by simp
next
  case (Cons pc ps)
  from Cons.prems have pc: "piece_ok pc" and ps: "list_all piece_ok ps" by simp_all
  have "lex (Some CHR ''a'') e qd tok (concat (map piece_text (pc # ps)) @ rest) =
        lex (Some CHR ''a'') e qd tok (piece_text pc @ (concat (map piece_text ps) @ rest))"
    by simp
  also have "\<dots> = lex (Some CHR ''a'') e (qd \<or> is_quoted pc) (tok @ piece_value pc)
                     (concat (map piece_text ps) @ rest)"
    using pc by (rule lex_piece_word)
  also have "\<dots> = lex (Some CHR ''a'') e ((qd \<or> is_quoted pc) \<or> list_ex is_quoted ps)
                     ((tok @ piece_value pc) @ concat (map piece_value ps)) rest"
    using ps by (rule Cons.IH)
  finally show ?case by simp
qed

lemma lex_piece_blank:
  assumes "piece_ok pc"
  shows "lex (Some CHR '' '') e qd [] (piece_text pc @ rest) =
         lex (Some CHR ''a'') e (qd \<or> is_quoted pc) (piece_value pc) rest"
proof (cases pc)
  case (Text s)
  with assms show ?thesis by (simp add: lex_text_blank)
next
  case (Quoted q body)
  with assms lex_quoted [of q body "CHR '' ''" e qd "[]" rest] show ?thesis by simp
qed

lemma piece_shows: "piece_ok pc \<Longrightarrow> piece_value pc \<noteq> [] \<or> is_quoted pc"
  by (cases pc) simp_all

lemma lex_token_Cons:
  assumes pc: "piece_ok pc" and r: "list_all piece_ok ps"
  shows "lex (Some CHR '' '') e False [] (concat (map piece_text (pc # ps)) @ rest) =
         lex (Some CHR ''a'') e (is_quoted pc \<or> list_ex is_quoted ps)
           (concat (map piece_value (pc # ps))) rest"
proof -
  have "lex (Some CHR '' '') e False [] (piece_text pc @ (concat (map piece_text ps) @ rest)) =
        lex (Some CHR ''a'') e (False \<or> is_quoted pc) (piece_value pc)
          (concat (map piece_text ps) @ rest)"
    using pc by (rule lex_piece_blank)
  also have "\<dots> = lex (Some CHR ''a'') e ((False \<or> is_quoted pc) \<or> list_ex is_quoted ps)
                     (piece_value pc @ concat (map piece_value ps)) rest"
    using r by (rule lex_pieces_word)
  finally show ?thesis by simp
qed

lemma lex_token:
  assumes "ps \<noteq> []" "list_all piece_ok ps"
  shows "\<exists>qd' :: bool. (concat (map piece_value ps) \<noteq> [] \<or> qd') \<and>
           (\<forall>e rest. lex (Some CHR '' '') e False [] (concat (map piece_text ps) @ rest) =
              lex (Some CHR ''a'') e qd' (concat (map piece_value ps)) rest)"
proof (cases ps)
  case Nil
  with assms(1) show ?thesis by simp
next
  case (Cons pc qs)
  from assms(2) have pc: "piece_ok pc" and r: "list_all piece_ok qs"
    unfolding Cons by simp_all
  have shown: "concat (map piece_value (pc # qs)) \<noteq> [] \<or> (is_quoted pc \<or> list_ex is_quoted qs)"
  proof (cases "is_quoted pc")
    case True
    then show ?thesis by simp
  next
    case False
    with piece_shows [OF pc] have "piece_value pc \<noteq> []" by simp
    then show ?thesis by simp
  qed
  show ?thesis
    unfolding Cons
  proof (intro exI [of _ "is_quoted pc \<or> list_ex is_quoted qs"] conjI allI)
    show "concat (map piece_value (pc # qs)) \<noteq> [] \<or> (is_quoted pc \<or> list_ex is_quoted qs)"
      by (rule shown)
    show "lex (Some CHR '' '') e False [] (concat (map piece_text (pc # qs)) @ rest) =
          lex (Some CHR ''a'') e (is_quoted pc \<or> list_ex is_quoted qs)
            (concat (map piece_value (pc # qs))) rest" for e rest
      using pc r by (rule lex_token_Cons)
  qed
qed

lemma lex_end_of_line:
  assumes "comment_ok comment"
  shows "lex (Some CHR '' '') e False [] comment = Inr []"
    and "tok \<noteq> [] \<or> qd \<Longrightarrow> lex (Some CHR ''a'') e qd tok comment = Inr [tok]"
proof -
  show "lex (Some CHR '' '') e False [] comment = Inr []"
  proof (cases comment)
    case Nil
    then show ?thesis by (simp add: emit_def)
  next
    case (Cons c rest)
    with assms have "c = CHR ''#''" "CHR 0x0A \<notin> set rest"
      by (simp_all add: comment_ok_def commenters_def)
    then show ?thesis
      unfolding Cons
      by (simp add: readline_no_newline whitespace_def commenters_def emit_def)
  qed
  show "lex (Some CHR ''a'') e qd tok comment = Inr [tok]" if "tok \<noteq> [] \<or> qd"
  proof (cases comment)
    case Nil
    with that show ?thesis by (auto simp: emit_def quotes_def escape_def)
  next
    case (Cons c rest)
    with assms have "c = CHR ''#''" "CHR 0x0A \<notin> set rest"
      by (simp_all add: comment_ok_def commenters_def)
    with that show ?thesis
      unfolding Cons
      by (auto simp: readline_no_newline whitespace_def commenters_def emit_def quotes_def
          escape_def)
  qed
qed

lemma lex_line:
  "list_all item_ok items \<Longrightarrow> separated items \<Longrightarrow> comment_ok comment \<Longrightarrow>
   (\<forall>e. lex (Some CHR '' '') e False [] (line_text items @ comment) = Inr (tokens_of items)) \<and>
   (\<forall>e qd tok. (tok \<noteq> [] \<or> qd) \<longrightarrow> (\<forall>ps. items \<noteq> Token ps # tl items) \<longrightarrow>
      lex (Some CHR ''a'') e qd tok (line_text items @ comment) = Inr (tok # tokens_of items))"
proof (induction items)
  case Nil
  then show ?case by (simp add: line_text_def lex_end_of_line)
next
  case (Cons x items)
  from Cons.prems have ok: "list_all item_ok items" and x: "item_ok x"
    by simp_all
  have sep: "separated items"
  proof (cases items)
    case Nil
    then show ?thesis by simp
  next
    case (Cons y ys)
    with Cons.prems(2) show ?thesis by (cases x; cases y) simp_all
  qed
  note IH = Cons.IH [OF ok sep Cons.prems(3)]
  show ?case
  proof (cases x)
    case (Blank c)
    with x have c: "c \<in> set whitespace" by simp
    have 1: "lex (Some CHR '' '') e False [] (line_text (x # items) @ comment) =
             Inr (tokens_of (x # items))" for e
    proof -
      have "lex (Some CHR '' '') e False [] (c # line_text items @ comment) =
            lex (Some CHR '' '') e False [] (line_text items @ comment)"
        using c by simp
      with IH show ?thesis by (simp add: Blank line_text_def)
    qed
    have 2: "lex (Some CHR ''a'') e qd tok (line_text (x # items) @ comment) =
             Inr (tok # tokens_of (x # items))" if "tok \<noteq> [] \<or> qd" for e qd tok
    proof -
      have "lex (Some CHR ''a'') e qd tok (c # line_text items @ comment) =
            emit tok qd (lex (Some CHR '' '') CHR '' '' False [] (line_text items @ comment))"
        using c that by (auto simp: quotes_def escape_def)
      also have "\<dots> = Inr (tok # tokens_of items)"
        using IH that by (auto simp: emit_def)
      finally show ?thesis by (simp add: Blank line_text_def)
    qed
    from 1 2 show ?thesis by blast
  next
    case (Token ps)
    with x have ps: "ps \<noteq> []" "list_all piece_ok ps" by simp_all
    from lex_token [OF ps] obtain qd' where
      shown: "concat (map piece_value ps) \<noteq> [] \<or> qd'"
      and run: "\<And>e rest. lex (Some CHR '' '') e False [] (concat (map piece_text ps) @ rest) =
              lex (Some CHR ''a'') e qd' (concat (map piece_value ps)) rest"
      by blast
    have next_item: "\<forall>qs. items \<noteq> Token qs # tl items"
      using Cons.prems(2) Token by (cases items) auto
    have "lex (Some CHR '' '') e False [] (line_text (x # items) @ comment) =
          Inr (tokens_of (x # items))" for e
    proof -
      have "lex (Some CHR '' '') e False [] (line_text (x # items) @ comment) =
            lex (Some CHR ''a'') e qd' (concat (map piece_value ps)) (line_text items @ comment)"
        using run [of e "line_text items @ comment"] by (simp add: Token line_text_def)
      also have "\<dots> = Inr (concat (map piece_value ps) # tokens_of items)"
        using IH shown next_item by blast
      finally show ?thesis by (simp add: Token)
    qed
    then show ?thesis using Token by simp
  qed
qed

lemma tokens_of_line:
  assumes "list_all item_ok items" "separated items" "comment_ok comment"
  shows "convert_arg_line_to_args (line_text items @ comment) = Inr (tokens_of items)"
  using lex_line [OF assms] by (simp add: convert_arg_line_to_args_def shlex_split_def)

lemma splitlines_from_line:
  "set l \<inter> set line_boundaries = {} \<Longrightarrow> c \<in> set line_boundaries \<Longrightarrow> c \<noteq> CHR 0x0D \<Longrightarrow>
   splitlines_from acc (l @ c # rest) = (acc @ l) # splitlines_from [] rest"
proof (induction l arbitrary: acc)
  case Nil
  then show ?case by (cases rest) simp_all
next
  case (Cons x l)
  from Cons.prems have x: "x \<notin> set line_boundaries" and l: "set l \<inter> set line_boundaries = {}"
    by auto
  obtain d r where dr: "l @ c # rest = d # r" by (cases l) auto
  have "splitlines_from acc (x # d # r) = splitlines_from (acc @ [x]) (d # r)"
    using x by (auto simp: line_boundaries_def)
  also have "\<dots> = ((acc @ [x]) @ l) # splitlines_from [] rest"
    unfolding dr [symmetric] using l Cons.prems(2,3) by (rule Cons.IH)
  finally show ?case by (simp add: dr)
qed

lemma splitlines_lines:
  "\<forall>(l, c) \<in> set lines. set l \<inter> set line_boundaries = {} \<and> c \<in> set line_boundaries \<and>
                          c \<noteq> CHR 0x0D \<Longrightarrow>
   splitlines (concat (map (\<lambda>(l, c). l @ [c]) lines)) = map fst lines"
  unfolding splitlines_def
proof (induction lines)
  case Nil
  then show ?case by simp
next
  case (Cons x lines)
  obtain l c where x: "x = (l, c)" by (cases x)
  from Cons.prems x have ok: "set l \<inter> set line_boundaries = {}" "c \<in> set line_boundaries"
    "c \<noteq> CHR 0x0D"
    by auto
  have "splitlines_from [] (l @ c # concat (map (\<lambda>(l, c). l @ [c]) lines)) =
        ([] @ l) # splitlines_from [] (concat (map (\<lambda>(l, c). l @ [c]) lines))"
    using ok by (rule splitlines_from_line)
  with Cons show ?case by (simp add: x)
qed

lemma args_of_lines_concat:
  "map convert_arg_line_to_args lines = map Inr tokss \<Longrightarrow>
   args_of_lines lines = Inr (concat tokss)"
proof (induction lines arbitrary: tokss)
  case Nil
  then show ?case by simp
next
  case (Cons l lines)
  then obtain toks rest where "tokss = toks # rest" "convert_arg_line_to_args l = Inr toks"
    "map convert_arg_line_to_args lines = map Inr rest"
    by (cases tokss) auto
  with Cons.IH [of rest] show ?case by simp
qed

lemma read_args_no_files:
  "\<forall>t \<in> set toks. t = [] \<or> hd t \<noteq> CHR ''@'' \<Longrightarrow>
   read_args_from_files (Suc depth) env toks = Inr toks"
  by (induction toks) (auto simp: fromfile_prefix_chars_def)

lemma read_args_file:
  assumes "file_contents env path = Some (concat (map (\<lambda>(l, c). l @ [c]) lines))"
    and "\<forall>(l, c) \<in> set lines. set l \<inter> set line_boundaries = {} \<and> c \<in> set line_boundaries \<and>
                          c \<noteq> CHR 0x0D"
    and "map (convert_arg_line_to_args \<circ> fst) lines = map Inr tokss"
    and "\<forall>t \<in> set (concat tokss). t = [] \<or> hd t \<noteq> CHR ''@''"
  shows "read_args_from_files (Suc (Suc depth)) env [''@'' @ path] = Inr (concat tokss)"
proof -
  have sl: "splitlines (concat (map (\<lambda>(l, c). l @ [c]) lines)) = map fst lines"
    using assms(2) by (rule splitlines_lines)
  have "map convert_arg_line_to_args (map fst lines) = map Inr tokss"
    using assms(3) by simp
  then have al: "args_of_lines (map fst lines) = Inr (concat tokss)"
    by (rule args_of_lines_concat)
  have ra: "read_args_from_files (Suc depth) env (concat tokss) = Inr (concat tokss)"
    using assms(4) by (rule read_args_no_files)
  show ?thesis
    using assms(1) by (simp add: fromfile_prefix_chars_def sl al ra)
qed

lemma example_file_lines_tokens:
  "map (convert_arg_line_to_args \<circ> fst) example_file_lines =
     map Inr [[''--license'', ''mozilla''], [''--description'', ''My Project Description''],
              [''--with-pre-commit''], [''--with-tox''], [], [''--with-travis'']]"
  by code_simp

text \<open>
  Claim C3. Each line of an argument file is split with the quoting rules of the shell.
  For every line made of blanks and tokens, where a token is any sequence of plain text
  and quoted substrings, and that may end in a comment, the result is the list of the
  tokens, each with its quoted substrings kept whole and without their quotes: a blank
  or a \<open>#\<close> inside quotes is part of the token, and a \<open>#\<close> outside quotes, also right
  after a quoted substring or in the middle of a word, discards the rest of the line.
  A file is read line by line: when its lines end in line boundaries and each line
  gives a list of tokens, none a reference to a file, the file expands to these lists
  one after the other. A file with the two lines \<open>--license mozilla\<close> and
  \<open>--with-tox # comment\<close> expands to the three tokens \<open>--license\<close>, \<open>mozilla\<close>, \<open>--with-tox\<close>.
\<close>

theorem argument_file_tokens:
  "(\<forall>items comment. list_all item_ok items \<and> separated items \<and> comment_ok comment \<longrightarrow>
      convert_arg_line_to_args (line_text items @ comment) = Inr (tokens_of items)) \<and>
   (\<forall>env path depth lines tokss.
      file_contents env path = Some (concat (map (\<lambda>(l, c). l @ [c]) lines)) \<and>
      (\<forall>(l, c) \<in> set lines. set l \<inter> set line_boundaries = {} \<and> c \<in> set line_boundaries \<and>
                              c \<noteq> CHR 0x0D) \<and>
      map (convert_arg_line_to_args \<circ> fst) lines = map Inr tokss \<and>
      (\<forall>t \<in> set (concat tokss). t = [] \<or> hd t \<noteq> CHR ''@'') \<longrightarrow>
      read_args_from_files (Suc (Suc depth)) env [''@'' @ path] = Inr (concat tokss)) \<and>
   (\<forall>env path depth.
      file_contents env path = Some example_args_text \<longrightarrow>
      read_args_from_files (Suc (Suc depth)) env [''@'' @ path] =
        Inr [''--license'', ''mozilla'', ''--with-tox''])"
proof (intro conjI allI impI)
  fix items :: "item list" and comment :: string
  assume "list_all item_ok items \<and> separated items \<and> comment_ok comment"
  then show "convert_arg_line_to_args (line_text items @ comment) = Inr (tokens_of items)"
    by (intro tokens_of_line) simp_all
next
  fix env :: environment and path :: string and depth :: nat
    and lines :: "(string \<times> char) list" and tokss :: "string list list"
  assume a: "file_contents env path = Some (concat (map (\<lambda>(l, c). l @ [c]) lines)) \<and>
      (\<forall>(l, c) \<in> set lines. set l \<inter> set line_boundaries = {} \<and> c \<in> set line_boundaries \<and>
                              c \<noteq> CHR 0x0D) \<and>
      map (convert_arg_line_to_args \<circ> fst) lines = map Inr tokss \<and>
      (\<forall>t \<in> set (concat tokss). t = [] \<or> hd t \<noteq> CHR ''@'')"
  show "read_args_from_files (Suc (Suc depth)) env [''@'' @ path] = Inr (concat tokss)"
  proof (rule read_args_file)
    show "file_contents env path = Some (concat (map (\<lambda>(l, c). l @ [c]) lines))"
      using a by (rule conjunct1)
    show "\<forall>(l, c) \<in> set lines. set l \<inter> set line_boundaries = {} \<and> c \<in> set line_boundaries \<and>
                              c \<noteq> CHR 0x0D"
      using a by (rule conjunct2 [THEN conjunct1])
    show "map (convert_arg_line_to_args \<circ> fst) lines = map Inr tokss"
      using a by (rule conjunct2 [THEN conjunct2, THEN conjunct1])
    show "\<forall>t \<in> set (concat tokss). t = [] \<or> hd t \<noteq> CHR ''@''"
      using a by (rule conjunct2 [THEN conjunct2, THEN conjunct2])
  qed
next
  fix env :: environment and path :: string and depth :: nat
  assume "file_contents env path = Some example_args_text"
  then show "read_args_from_files (Suc (Suc depth)) env [''@'' @ path] =
        Inr [''--license'', ''mozilla'', ''--with-tox'']"
    by (simp add: example_file_args fromfile_prefix_chars_def)
qed

theorem argument_file_tokens_witness:
  "convert_arg_line_to_args (''--description '' @ [CHR 0x27] @ ''My Project Description'' @ [CHR 0x27]) =
     Inr [''--description'', ''My Project Description''] \<and>
   convert_arg_line_to_args
     (''  --url='' @ [CHR 0x22] @ ''http://example.org/#top'' @ [CHR 0x22] @ ''# the home page'') =
     Inr [''--url=http://example.org/#top''] \<and>
   read_args_from_files 2
     (example_env \<lparr> file_contents :=
        (\<lambda>p. Some (concat (map (\<lambda>(l, c). l @ [c]) example_file_lines))) \<rparr>)
     [''@my.args''] =
     Inr [''--license'', ''mozilla'', ''--description'', ''My Project Description'',
          ''--with-pre-commit'', ''--with-tox'', ''--with-travis''] \<and>
   read_args_from_files 2 example_env [''@pyscaffold.args''] =
     Inr [''--license'', ''mozilla'', ''--with-tox'']"
proof -
  note c3 = argument_file_tokens
  let ?line1 = "[Token [Text ''--description''], Blank CHR '' '',
                 Token [Quoted CHR 0x27 ''My Project Description'']]"
  let ?line2 = "[Blank CHR '' '', Blank CHR '' '',
                 Token [Text ''--url='', Quoted CHR 0x22 ''http://example.org/#top'']]"
  have ok1: "list_all item_ok ?line1 \<and> separated ?line1 \<and> comment_ok []"
    by (simp add: whitespace_def commenters_def quotes_def escape_def escapedquotes_def
        comment_ok_def)
  have ok2: "list_all item_ok ?line2 \<and> separated ?line2 \<and> comment_ok ''# the home page''"
    by (simp add: whitespace_def commenters_def quotes_def escape_def escapedquotes_def
        comment_ok_def)
  have a: "convert_arg_line_to_args
             (''--description '' @ [CHR 0x27] @ ''My Project Description'' @ [CHR 0x27]) =
           Inr [''--description'', ''My Project Description'']"
    using c3 [THEN conjunct1, rule_format, OF ok1] by (simp add: line_text_def)
  have b: "convert_arg_line_to_args
             (''  --url='' @ [CHR 0x22] @ ''http://example.org/#top'' @ [CHR 0x22] @
              ''# the home page'') = Inr [''--url=http://example.org/#top'']"
    using c3 [THEN conjunct1, rule_format, OF ok2] by (simp add: line_text_def)
  let ?env = "example_env \<lparr> file_contents :=
        (\<lambda>p. Some (concat (map (\<lambda>(l, c). l @ [c]) example_file_lines))) \<rparr>"
  let ?tokss = "[[''--license'', ''mozilla''], [''--description'', ''My Project Description''],
              [''--with-pre-commit''], [''--with-tox''], [], [''--with-travis'']]"
  have lines_ok: "\<forall>(l, c) \<in> set example_file_lines.
      set l \<inter> set line_boundaries = {} \<and> c \<in> set line_boundaries \<and> c \<noteq> CHR 0x0D"
    by (simp add: example_file_lines_def line_boundaries_def)
  have "file_contents ?env ''my.args'' =
          Some (concat (map (\<lambda>(l, c). l @ [c]) example_file_lines)) \<and>
      (\<forall>(l, c) \<in> set example_file_lines.
          set l \<inter> set line_boundaries = {} \<and> c \<in> set line_boundaries \<and> c \<noteq> CHR 0x0D) \<and>
      map (convert_arg_line_to_args \<circ> fst) example_file_lines = map Inr ?tokss \<and>
      (\<forall>t \<in> set (concat ?tokss). t = [] \<or> hd t \<noteq> CHR ''@'')"
    using lines_ok example_file_lines_tokens by simp
  from c3 [THEN conjunct2, THEN conjunct1, rule_format, OF this, of 0]
  have c: "read_args_from_files 2 ?env [''@my.args''] =
     Inr [''--license'', ''mozilla'', ''--description'', ''My Project Description'',
          ''--with-pre-commit'', ''--with-tox'', ''--with-travis'']"
    by (simp add: numeral_2_eq_2)
  have "file_contents example_env ''pyscaffold.args'' = Some example_args_text"
    by (simp add: example_env_def)
  from c3 [THEN conjunct2, THEN conjunct2, rule_format, OF this, of 0]
  have d: "read_args_from_files 2 example_env [''@pyscaffold.args''] =
           Inr [''--license'', ''mozilla'', ''--with-tox'']"
    by (simp add: numeral_2_eq_2)
  from a b c d show ?thesis by blast
qed


section \<open>The profile\<close>

lemma config_dir_example_env_none:
  "get_config_dir example_env_none = ''/home/user/.config/pyscaffold''"
  by (simp add: get_config_dir_def candidates_def example_env_none_def example_env_def
      example_environ_def OSX_CONFIG_def WIN_CONFIG_def XDG_CONFIG_def UNIX_CONFIG_def
      is_word_char_def after_brace_def os_path_join_def os_sep_def)

lemma config_dir_example_env_work:
  "get_config_dir example_env_work = ''/home/user/.config/pyscaffold''"
  by (simp add: get_config_dir_def candidates_def example_env_work_def example_env_def
      example_environ_def OSX_CONFIG_def WIN_CONFIG_def XDG_CONFIG_def UNIX_CONFIG_def
      is_word_char_def after_brace_def os_path_join_def os_sep_def)


text \<open>
  Claim C2. When the profile variable is the string \<open>none\<close>, \<open>parse_args\<close> adds no file
  reference: it parses the explicit arguments alone, and its result does not depend
  on which files exist, a \<open>none.args\<close> or \<open>default.args\<close> in the configuration directory
  included.
\<close>

theorem profile_none_loads_no_file:
  "environ env ''PYSCAFFOLD_PROFILE'' = Some ''none'' \<longrightarrow>
     with_profile env args = args \<and>
     parse_args env args =
       (if old_setuptools env then Inl OldSetuptools
        else case parser_parse_args (cli_parser env) env args of
          Inl e \<Rightarrow> Inl e
        | Inr opts \<Rightarrow> finish_opts opts) \<and>
     parse_args (env \<lparr> path_exists := any_files \<rparr>) args = parse_args env args"
proof
  assume none: "environ env ''PYSCAFFOLD_PROFILE'' = Some ''none''"
  have w: "with_profile e args = args" if "environ e ''PYSCAFFOLD_PROFILE'' = Some ''none''" for e
    using that by (simp add: with_profile_def)
  have p: "cli_parser (env \<lparr> path_exists := any_files \<rparr>) = cli_parser env"
    by (simp add: cli_parser_def add_default_args_def)
  have r: "read_args_from_files n (env \<lparr> path_exists := any_files \<rparr>) xs =
           read_args_from_files n env xs" for n xs
    by (induction n env xs rule: read_args_from_files.induct)
       (auto split: option.split sum.split)
  have k: "parse_known_args q (env \<lparr> path_exists := any_files \<rparr>) xs = parse_known_args q env xs"
    for q xs
    by (simp add: parse_known_args_def r)
  show "with_profile env args = args \<and>
     parse_args env args =
       (if old_setuptools env then Inl OldSetuptools
        else case parser_parse_args (cli_parser env) env args of
          Inl e \<Rightarrow> Inl e
        | Inr opts \<Rightarrow> finish_opts opts) \<and>
     parse_args (env \<lparr> path_exists := any_files \<rparr>) args = parse_args env args"
    using none by (simp add: parse_args_def w p parser_parse_args_def k)
qed


theorem profile_none_loads_no_file_witness:
  "environ example_env_none ''PYSCAFFOLD_PROFILE'' = Some ''none'' \<and>
   path_exists example_env_none (get_args_file example_env_none (Some ''none'')) \<and>
   path_exists example_env_none (get_args_file example_env_none None) \<and>
   with_profile example_env_none [''my-project''] = [''my-project''] \<and>
   parse_args (example_env_none \<lparr> path_exists := (\<lambda>p. False) \<rparr>) [''my-project''] =
     parse_args example_env_none [''my-project''] \<and>
   opt_value ''license'' (parse_args example_env_none [''my-project'']) =
     Inr (Some (PyStr ''none''))"
proof -
  have none: "environ example_env_none ''PYSCAFFOLD_PROFILE'' = Some ''none''"
    by (simp add: example_env_none_def)
  have f1: "path_exists example_env_none (get_args_file example_env_none (Some ''none''))"
    unfolding get_args_file_def config_dir_example_env_none
    by (simp add: example_env_none_def os_path_join_def os_sep_def)
  have f2: "path_exists example_env_none (get_args_file example_env_none None)"
    unfolding get_args_file_def config_dir_example_env_none
    by (simp add: example_env_none_def os_path_join_def os_sep_def DEFAULT_PROFILE_def)
  have lic: "opt_value ''license'' (parse_args example_env_none [''my-project'']) =
     Inr (Some (PyStr ''none''))"
    by code_simp
  from profile_none_loads_no_file [of example_env_none "[''my-project'']" "\<lambda>p. False"] none
  have "with_profile example_env_none [''my-project''] = [''my-project''] \<and>
        parse_args (example_env_none \<lparr> path_exists := (\<lambda>p. False) \<rparr>) [''my-project''] =
          parse_args example_env_none [''my-project'']"
    by blast
  with none f1 f2 lic show ?thesis by blast
qed


text \<open>
  Claim C10. When the argument file of the selected profile (of the default profile
  when the variable is unset or empty) does not exist, \<open>parse_args\<close> parses the explicit
  arguments alone; the missing file is no error.
\<close>

theorem missing_profile_file_is_ignored:
  "\<not> path_exists env (get_args_file env (environ env ''PYSCAFFOLD_PROFILE'')) \<longrightarrow>
     with_profile env args = args \<and>
     parse_args env args =
       (if old_setuptools env then Inl OldSetuptools
        else case parser_parse_args (cli_parser env) env args of
          Inl e \<Rightarrow> Inl e
        | Inr opts \<Rightarrow> finish_opts opts)"
  by (simp add: parse_args_def with_profile_def Let_def)

theorem missing_profile_file_is_ignored_witness:
  "get_args_file example_env_work (environ example_env_work ''PYSCAFFOLD_PROFILE'') =
     ''/home/user/.config/pyscaffold/work.args'' \<and>
   \<not> path_exists example_env_work ''/home/user/.config/pyscaffold/work.args'' \<and>
   with_profile example_env_work [''my-project''] = [''my-project''] \<and>
   opt_value ''project'' (parse_args example_env_work [''my-project'']) =
     Inr (Some (PyStr ''my-project''))"
proof -
  have p: "environ example_env_work ''PYSCAFFOLD_PROFILE'' = Some ''work''"
    by (simp add: example_env_work_def)
  have f: "get_args_file example_env_work (environ example_env_work ''PYSCAFFOLD_PROFILE'') =
     ''/home/user/.config/pyscaffold/work.args''"
    unfolding p get_args_file_def config_dir_example_env_work
    by (simp add: os_path_join_def os_sep_def)
  have n: "\<not> path_exists example_env_work ''/home/user/.config/pyscaffold/work.args''"
    by (simp add: example_env_work_def example_env_def)
  have r: "opt_value ''project'' (parse_args example_env_work [''my-project'']) =
     Inr (Some (PyStr ''my-project''))"
    by code_simp
  from missing_profile_file_is_ignored [of example_env_work "[''my-project'']"] n
  have "with_profile example_env_work [''my-project''] = [''my-project'']"
    unfolding f by blast
  with f n r show ?thesis by blast
qed



section \<open>The parser of cli.py, action by action\<close>

lemma cli_parser_actions:
  "actions (cli_parser env) =
     [help_action, project_action, package_action, description_action, url_action,
      license_action env, force_action, update_action, pretend_action, list_actions_action,
      version_action, quiet_action]"
  by (simp add: cli_parser_def add_default_args_def ArgumentParser_def set_defaults_def
      add_argument_def group_add_argument_def add_mutually_exclusive_group_def infer_dest_def
      prefix_chars_def Let_def
      help_action_def project_action_def package_action_def description_action_def
      url_action_def license_action_def force_action_def update_action_def pretend_action_def
      list_actions_action_def version_action_def quiet_action_def)

lemma cli_parser_groups:
  "mutually_exclusive_groups (cli_parser env) = [[pretend_action, list_actions_action]]"
  by (simp add: cli_parser_def add_default_args_def ArgumentParser_def set_defaults_def
      add_argument_def group_add_argument_def add_mutually_exclusive_group_def infer_dest_def
      prefix_chars_def Let_def pretend_action_def list_actions_action_def)

lemma cli_parser_defaults:
  "defaults (cli_parser env) =
     [(''log_level'', PyStr ''INFO''), (''extensions'', PyList []),
      (''command'', PyFunc Run_scaffold)]"
  by (simp add: cli_parser_def add_default_args_def ArgumentParser_def set_defaults_def
      add_argument_def group_add_argument_def add_mutually_exclusive_group_def Let_def)

lemma cli_parser_option_string_actions:
  "option_string_actions (cli_parser env) =
     [(''-h'', help_action), (''--help'', help_action),
      (''-p'', package_action), (''--package'', package_action),
      (''-d'', description_action), (''--description'', description_action),
      (''-u'', url_action), (''--url'', url_action),
      (''-l'', license_action env), (''--license'', license_action env),
      (''-f'', force_action), (''--force'', force_action),
      (''-U'', update_action), (''--update'', update_action),
      (''--pretend'', pretend_action), (''--dry-run'', pretend_action),
      (''--list-actions'', list_actions_action),
      (''-v'', version_action), (''--version'', version_action),
      (''-q'', quiet_action), (''--quiet'', quiet_action)]"
  by (simp add: cli_parser_def add_default_args_def ArgumentParser_def set_defaults_def
      add_argument_def group_add_argument_def add_mutually_exclusive_group_def infer_dest_def
      prefix_chars_def Let_def
      help_action_def project_action_def package_action_def description_action_def
      url_action_def license_action_def force_action_def update_action_def pretend_action_def
      list_actions_action_def version_action_def quiet_action_def)

section \<open>Invariants of a run\<close>

lemma replay_append: "replay ns (xs @ ys) = replay (replay ns xs) ys"
  by (simp add: replay_def)

lemma replay_single: "replay ns [(i, a, v)] = ns(dest a \<mapsto> stored a v)"
  by (simp add: replay_def)

lemma take_action_Inr:
  assumes "take_action p i st (a, strs, os) = Inr st'"
  shows "\<exists>v. get_values a strs = Inr v \<and> v \<noteq> PyNone \<and>
           st' = st \<lparr> seen_actions := insert a (seen_actions st),
                      seen_non_default_actions := insert a (seen_non_default_actions st),
                      taken := taken st @ [(i, a, v)],
                      namespace := (namespace st)(dest a \<mapsto> stored a v) \<rparr> \<and>
           (kind a = Store \<or> kind a = Store_const) \<and>
           \<not> list_ex (\<lambda>c. c \<in> insert a (seen_non_default_actions st)) (action_conflicts p a)"
proof -
  have "v \<noteq> PyNone" if "get_values a strs = Inr v" for v
    using that by (auto simp: get_values_def Let_def split: if_splits)
  with assms show ?thesis
    by (auto simp: take_action_def call_action_def stored_def Let_def
             split: sum.splits action_kind.splits if_splits)
qed

lemma steps_trans:
  "steps p j st' k st'' \<Longrightarrow> steps p i st j st' \<Longrightarrow> steps p i st k st''"
  by (induction rule: steps.induct) (auto intro: steps.intros)

lemma steps_le: "steps p i st j st' \<Longrightarrow> i \<le> j"
  by (induction rule: steps.induct) auto

lemma in_action_conflicts:
  assumes "g \<in> set (mutually_exclusive_groups p)" "a \<in> set g" "b \<in> set g" "a \<noteq> b"
  shows "b \<in> set (action_conflicts p a)"
proof -
  from assms(2) obtain i where i: "i < length g" "g ! i = a"
    by (auto simp: in_set_conv_nth)
  from assms(3) obtain j where j: "j < length g" "g ! j = b"
    by (auto simp: in_set_conv_nth)
  from i j assms(4) have ij: "i \<noteq> j" by auto
  have "b \<in> set (take i g @ drop (Suc i) g)"
  proof (cases "j < i")
    case True
    then have "b \<in> set (take i g)"
      using j by (auto simp: in_set_conv_nth intro!: exI [of _ j])
    then show ?thesis by simp
  next
    case False
    with ij have "Suc i \<le> j" by simp
    then have "drop (Suc i) g ! (j - Suc i) = b" "j - Suc i < length (drop (Suc i) g)"
      using j by auto
    then have "b \<in> set (drop (Suc i) g)"
      by (metis nth_mem)
    then show ?thesis by simp
  qed
  then show ?thesis
    unfolding action_conflicts_def using assms(1) i
    by (auto intro!: bexI [of _ g] bexI [of _ i])
qed

lemma run_inv_action:
  assumes inv: "run_inv p j st" and t: "take_action p j st (a, strs, os) = Inr st'"
    and a: "a \<in> set (actions p)"
  shows "run_inv p j st'"
proof -
  from take_action_Inr [OF t] obtain v where
    st': "st' = st \<lparr> seen_actions := insert a (seen_actions st),
                      seen_non_default_actions := insert a (seen_non_default_actions st),
                      taken := taken st @ [(j, a, v)],
                      namespace := (namespace st)(dest a \<mapsto> stored a v) \<rparr>"
    and vn: "v \<noteq> PyNone"
    and nc: "\<not> list_ex (\<lambda>c. c \<in> insert a (seen_non_default_actions st)) (action_conflicts p a)"
    by blast
  have e: "entries_of st' = insert a (entries_of st)"
    by (auto simp: st' entries_of_def)
  have srt: "sorted (map fst (taken st'))"
    using inv by (auto simp: st' run_inv_def sorted_append)
  have bnd: "\<forall>k \<in> set (map fst (taken st')). k \<le> j"
    using inv by (auto simp: st' run_inv_def)
  have ns: "namespace st' = replay (initial_namespace p) (taken st')"
    using inv by (simp add: st' run_inv_def replay_append replay_single)
  have old: "mutex_ok p (seen_non_default_actions st)"
    using inv [unfolded run_inv_def] by simp
  have free: "c \<notin> insert a (seen_non_default_actions st)"
    if "c \<in> set (action_conflicts p a)" for c
    using nc that unfolding list_ex_iff by blast
  have snd': "seen_non_default_actions st' = insert a (seen_non_default_actions st)"
    by (simp add: st')
  have mx: "mutex_ok p (seen_non_default_actions st')"
    unfolding mutex_ok_def snd'
  proof (intro ballI impI notI)
    fix g x y
    assume g: "g \<in> set (mutually_exclusive_groups p)" and x: "x \<in> set g" and y: "y \<in> set g"
      and ne: "x \<noteq> y"
      and both: "x \<in> insert a (seen_non_default_actions st) \<and>
                 y \<in> insert a (seen_non_default_actions st)"
    have nold: "\<not> (x \<in> seen_non_default_actions st \<and> y \<in> seen_non_default_actions st)"
      using old g x y ne unfolding mutex_ok_def by blast
    show False
    proof (cases "x = a")
      case True
      have "y \<in> set (action_conflicts p a)"
      proof (rule in_action_conflicts [OF g])
        show "a \<in> set g" using x True by simp
        show "y \<in> set g" by (rule y)
        show "a \<noteq> y" using ne True by simp
      qed
      from free [OF this] both show False by blast
    next
      case False
      show False
      proof (cases "y = a")
        case True
        have "x \<in> set (action_conflicts p a)"
        proof (rule in_action_conflicts [OF g])
          show "a \<in> set g" using y True by simp
          show "x \<in> set g" by (rule x)
          show "a \<noteq> x" using ne True by simp
        qed
        from free [OF this] both show False by blast
      next
        case False
        with \<open>x \<noteq> a\<close> both nold show False by blast
      qed
    qed
  qed
  have s1: "seen_non_default_actions st' = entries_of st'"
    unfolding e using inv by (simp add: st' run_inv_def)
  have s2: "seen_actions st' = entries_of st'"
    unfolding e using inv by (simp add: st' run_inv_def)
  have s3: "entries_of st' \<subseteq> set (actions p)"
    unfolding e using inv a by (simp add: run_inv_def)
  have s4: "set (positionals st') \<subseteq> set (actions p)"
    using inv by (simp add: st' run_inv_def)
  have mx': "mutex_ok p (entries_of st')"
    using mx unfolding s1 .
  have s5: "\<forall>e \<in> set (taken st'). snd (snd e) \<noteq> PyNone"
    using inv vn by (simp add: st' run_inv_def)
  show ?thesis
    unfolding run_inv_def
    using srt bnd ns mx' s1 s2 s3 s4 s5 by blast
qed

lemma run_inv_extras: "run_inv p i (st \<lparr> extras := e \<rparr>) = run_inv p i st"
  by (simp add: run_inv_def entries_of_def)

lemma run_inv_positionals:
  assumes "run_inv p i st" "set ps \<subseteq> set (positionals st)"
  shows "run_inv p i (st \<lparr> positionals := ps \<rparr>)"
proof -
  have "set ps \<subseteq> set (actions p)"
    using assms unfolding run_inv_def by blast
  moreover have "entries_of (st \<lparr> positionals := ps \<rparr>) = entries_of st"
    by (simp add: entries_of_def)
  ultimately show ?thesis
    using assms(1) unfolding run_inv_def by simp
qed

lemma run_inv_index:
  assumes "run_inv p i st" "i \<le> k"
  shows "run_inv p k st"
proof -
  have "\<forall>n \<in> set (map fst (taken st)). n \<le> k"
    using assms unfolding run_inv_def by (meson le_trans)
  then show ?thesis
    using assms(1) unfolding run_inv_def by blast
qed

lemma run_inv_steps:
  "steps p i st j st' \<Longrightarrow> run_inv p i st \<Longrightarrow> run_inv p j st'"
proof (induction rule: steps.induct)
  case (steps_refl i st)
  then show ?case .
next
  case (steps_extras i st j st' e)
  then show ?case by (simp add: run_inv_extras)
next
  case (steps_positionals i st j st' ps)
  then show ?case by (simp add: run_inv_positionals)
next
  case (steps_index i st j st' k)
  then show ?case by (blast intro: run_inv_index)
next
  case (steps_action i st j st' a strs os st'')
  then show ?case by (blast intro: run_inv_action)
qed

lemma take_actions_steps:
  "steps p i st0 j st \<Longrightarrow> take_actions p j st tups = Inr st' \<Longrightarrow>
   \<forall>t \<in> set tups. fst t \<in> set (actions p) \<Longrightarrow> steps p i st0 j st'"
proof (induction tups arbitrary: st)
  case Nil
  then show ?case by simp
next
  case (Cons t tups)
  obtain a strs os where t: "t = (a, strs, os)" by (cases t)
  from Cons.prems(2) obtain st1 where
    one: "take_action p j st (a, strs, os) = Inr st1" and rest: "take_actions p j st1 tups = Inr st'"
    by (auto simp: t split: sum.splits)
  have "a \<in> set (actions p)" using Cons.prems(3) t by simp
  with Cons.prems(1) one have "steps p i st0 j st1" by (rule steps_action)
  then show ?case using rest Cons.prems(3) by (intro Cons.IH) auto
qed

lemma take_positionals_steps:
  "steps p i st0 j st \<Longrightarrow> take_positionals p args j st zs = Inr (k, st') \<Longrightarrow>
   \<forall>z \<in> set zs. fst z \<in> set (actions p) \<Longrightarrow> steps p i st0 k st'"
proof (induction zs arbitrary: j st)
  case Nil
  then show ?case by simp
next
  case (Cons z zs)
  obtain a n where z: "z = (a, n)" by (cases z)
  from Cons.prems(2) obtain st1 where
    one: "take_action p j st (a, take n (drop j args), None) = Inr st1"
    and rest: "take_positionals p args (j + n) st1 zs = Inr (k, st')"
    by (auto simp: z split: sum.splits)
  have "a \<in> set (actions p)" using Cons.prems(3) z by simp
  with Cons.prems(1) one have "steps p i st0 j st1" by (rule steps_action)
  then have "steps p i st0 (j + n) st1" by (rule steps_index) simp
  then show ?case using rest Cons.prems(3) by (intro Cons.IH) auto
qed

lemma take_action_positionals:
  "take_action p j st tup = Inr st' \<Longrightarrow> positionals st' = positionals st"
  by (cases tup) (auto dest!: take_action_Inr)

lemma take_positionals_positionals:
  "take_positionals p args j st zs = Inr (k, st') \<Longrightarrow> positionals st' = positionals st"
proof (induction zs arbitrary: j st)
  case Nil
  then show ?case by simp
next
  case (Cons z zs)
  obtain a n where z: "z = (a, n)" by (cases z)
  from Cons.prems obtain st1 where
    one: "take_action p j st (a, take n (drop j args), None) = Inr st1"
    and rest: "take_positionals p args (j + n) st1 zs = Inr (k, st')"
    by (auto simp: z split: sum.splits)
  from Cons.IH [OF rest] take_action_positionals [OF one] show ?case by simp
qed

lemma consume_positionals_steps:
  assumes "steps p i st0 j st" "set (positionals st) \<subseteq> set (actions p)"
    and "consume_positionals p args pat j st = Inr (k, st')"
  shows "steps p i st0 k st'"
proof -
  let ?counts = "match_arguments_partial (positionals st) (drop j pat)"
  from assms(3) obtain st1 where
    tp: "take_positionals p args j st (zip (positionals st) ?counts) = Inr (k, st1)"
    and st': "st' = st1 \<lparr> positionals := drop (length ?counts) (positionals st1) \<rparr>"
    by (auto simp: consume_positionals_def Let_def split: sum.splits)
  have "\<forall>z \<in> set (zip (positionals st) ?counts). fst z \<in> set (actions p)"
    using assms(2) by (auto dest: set_zip_leftD)
  with assms(1) tp have "steps p i st0 k st1" by (rule take_positionals_steps)
  then show ?thesis
    unfolding st' by (rule steps_positionals) (rule set_drop_subset)
qed

lemma option_loop_result:
  "option_loop p args pat i a os sep ea tups0 = Inr (tups, ex, stop) \<Longrightarrow>
   a \<in> A \<Longrightarrow> \<forall>t \<in> set tups0. fst t \<in> A \<Longrightarrow>
   \<forall>s b. map_of (option_string_actions p) s = Some b \<longrightarrow> b \<in> A \<Longrightarrow>
   (\<forall>t \<in> set tups. fst t \<in> A) \<and> i < stop \<and> a \<in> fst ` set tups \<and> set tups0 \<subseteq> set tups"
proof (induction p args pat i a os sep ea tups0 rule: option_loop.induct)
  case (1 p args pat i a os sep ea tups0)
  note eq = "1.prems"(1) [unfolded option_loop.simps [of p args pat i a os sep ea tups0]]
  show ?case
  proof (cases ea)
    case None
    with eq "1.prems"(2,3) show ?thesis
      by (auto split: option.splits)
  next
    case (Some e)
    show ?thesis
    proof (cases "match_nargs_pattern a ''A''")
      case None
      with eq Some show ?thesis by simp
    next
      case (Some n)
      note n = this
      show ?thesis
      proof (cases "n = 0 \<and> hd (tl os) \<notin> set prefix_chars \<and> e \<noteq> []")
        case False
        with eq \<open>ea = Some e\<close> n "1.prems"(2,3) show ?thesis
          by (auto split: if_splits)
      next
        case True
        note cluster = this
        show ?thesis
        proof (cases "(sep \<noteq> None \<and> sep \<noteq> Some []) \<or> hd e \<in> set prefix_chars")
          case True
          with eq \<open>ea = Some e\<close> n cluster show ?thesis by simp
        next
          case False
          note nosep = this
          show ?thesis
          proof (cases "map_of (option_string_actions p) [hd os, hd e]")
            case None
            with eq \<open>ea = Some e\<close> n cluster nosep
            have "tups = tups0 @ [(a, [], Some os)]" "stop = i + 1"
              by auto
            with "1.prems"(2,3) show ?thesis
              by (auto simp: image_iff)
          next
            case (Some a')
            have a': "a' \<in> A" using "1.prems"(4) Some by blast
            have t0: "\<forall>t \<in> set (tups0 @ [(a, [], Some os)]). fst t \<in> A"
              using "1.prems"(2,3) by auto
            have rec: "(\<forall>t \<in> set tups. fst t \<in> A) \<and> i < stop \<and> a' \<in> fst ` set tups \<and>
                       set (tups0 @ [(a, [], Some os)]) \<subseteq> set tups"
            proof (cases "tl e = []")
              case True
              with eq \<open>ea = Some e\<close> n cluster nosep Some
              have "option_loop p args pat i a' [hd os, hd e] None None
                      (tups0 @ [(a, [], Some os)]) = Inr (tups, ex, stop)"
                by auto
              from "1.IH"(1) [OF \<open>ea = Some e\<close> n _ _ Some True this a' t0 "1.prems"(4)]
                cluster nosep
              show ?thesis by blast
            next
              case False
              note tl = this
              show ?thesis
              proof (cases "hd (tl e) = CHR ''=''")
                case True
                with eq \<open>ea = Some e\<close> n cluster nosep Some tl
                have "option_loop p args pat i a' [hd os, hd e] (Some ''='') (Some (tl (tl e)))
                        (tups0 @ [(a, [], Some os)]) = Inr (tups, ex, stop)"
                  by auto
                from "1.IH"(2) [OF \<open>ea = Some e\<close> n _ _ Some tl True this a' t0 "1.prems"(4)]
                  cluster nosep
                show ?thesis by blast
              next
                case False
                with eq \<open>ea = Some e\<close> n cluster nosep Some tl
                have "option_loop p args pat i a' [hd os, hd e] (Some []) (Some (tl e))
                        (tups0 @ [(a, [], Some os)]) = Inr (tups, ex, stop)"
                  by auto
                from "1.IH"(3) [OF \<open>ea = Some e\<close> n _ _ Some tl False this a' t0 "1.prems"(4)]
                  cluster nosep
                show ?thesis by blast
              qed
            qed
            then show ?thesis by force
          qed
        qed
      qed
    qed
  qed
qed

lemma map_of_in_snd: "map_of xs s = Some b \<Longrightarrow> b \<in> snd ` set xs"
  by (force dest: map_of_SomeD)

lemma get_option_tuples_actions:
  "(Some a, os, sep, ea) \<in> set (get_option_tuples p s) \<Longrightarrow> a \<in> snd ` set (option_string_actions p)"
  by (auto simp: get_option_tuples_def split: if_splits prod.splits) force+

lemma parse_optional_action:
  assumes "parse_optional p s = Inr (Some (Some a, os, sep, ea))"
  shows "a \<in> snd ` set (option_string_actions p)"
proof -
  have hd_in: "xs \<noteq> [] \<Longrightarrow> hd xs \<in> set xs" for xs :: "option_tuple list" by simp
  have tuples: "length (get_option_tuples p s) = Suc 0 \<Longrightarrow>
      hd (get_option_tuples p s) = (Some a, os, sep, ea) \<Longrightarrow> ?thesis"
    using get_option_tuples_actions [of a os sep ea p s] hd_in [of "get_option_tuples p s"]
    by (cases "get_option_tuples p s") auto
  from assms show ?thesis
    unfolding parse_optional_def Let_def
    by (auto split: if_splits option.splits prod.splits
             dest: map_of_in_snd intro: tuples)
qed

lemma classify_parts_ok: "classify p args = Inr parts \<Longrightarrow> parts_ok p parts"
proof (induction args arbitrary: parts)
  case Nil
  then show ?case by (simp add: parts_ok_def)
next
  case (Cons s args)
  show ?case
  proof (cases "s = ''--''")
    case True
    with Cons.prems show ?thesis by (auto simp: parts_ok_def)
  next
    case False
    with Cons.prems obtain t rest where
      t: "parse_optional p s = Inr t" and rest: "classify p args = Inr rest"
      and parts: "parts = (if t = None then CHR ''A'' else CHR ''O'', t) # rest"
      by (auto split: sum.splits)
    from Cons.IH [OF rest] have "parts_ok p rest" .
    moreover have "a \<in> snd ` set (option_string_actions p)"
      if "t = Some (Some a, os, sep, ea)" for a os sep ea
      using parse_optional_action t that by blast
    ultimately show ?thesis
      unfolding parts parts_ok_def by auto
  qed
qed

lemma option_string_indices_iff:
  "k \<in> set (option_string_indices parts) \<longleftrightarrow> k < length parts \<and> snd (parts ! k) \<noteq> None"
  by (auto simp: option_string_indices_def)

lemma next_option_string_index_props:
  assumes "loop_condition parts i"
  shows "i \<le> next_option_string_index parts i"
    and "next_option_string_index parts i \<in> set (option_string_indices parts)"
    and "\<forall>k \<in> set (option_string_indices parts). i \<le> k \<longrightarrow> next_option_string_index parts i \<le> k"
proof -
  let ?S = "set (filter (\<lambda>index. index \<ge> i) (option_string_indices parts))"
  have fin: "finite ?S" by simp
  have mx: "Max (set (option_string_indices parts)) \<in> set (option_string_indices parts)"
    using assms by (intro Max_in) (auto simp: loop_condition_def)
  have ne: "?S \<noteq> {}"
  proof -
    from assms have "i \<le> Max (set (option_string_indices parts))"
      by (simp add: loop_condition_def)
    with mx have "Max (set (option_string_indices parts)) \<in> ?S"
      by (simp del: Max_in)
    then show ?thesis by (metis empty_iff)
  qed
  have m: "Min ?S \<in> ?S" using fin ne by (rule Min_in)
  show "i \<le> next_option_string_index parts i"
    using m unfolding next_option_string_index_def by simp
  show "next_option_string_index parts i \<in> set (option_string_indices parts)"
    using m unfolding next_option_string_index_def by simp
  show "\<forall>k \<in> set (option_string_indices parts). i \<le> k \<longrightarrow> next_option_string_index parts i \<le> k"
    unfolding next_option_string_index_def using fin by (auto intro: Min_le)
qed

lemma consume_optional_steps:
  assumes st: "steps p i0 st0 i st" and wf: "wf_parser p" and ok: "parts_ok p parts"
    and i: "i < length parts"
    and c: "consume_optional p args parts i st = Inr (j, st')"
  shows "steps p i0 st0 j st' \<and> i < j"
proof (cases "snd (parts ! i)")
  case None
  with c show ?thesis by (simp add: consume_optional_def)
next
  case (Some t)
  obtain ao os sep ea where t: "t = (ao, os, sep, ea)" by (cases t)
  have sp: "snd (parts ! i) = Some (ao, os, sep, ea)" using Some t by simp
  show ?thesis
  proof (cases ao)
    case None
    have "Inr (i + 1, st \<lparr> extras := extras st @ [args ! i] \<rparr>) = Inr (j, st')"
      using c unfolding consume_optional_def sp None by simp
    then have r: "j = i + 1" "st' = st \<lparr> extras := extras st @ [args ! i] \<rparr>"
      by simp_all
    have "steps p i0 st0 i (st \<lparr> extras := extras st @ [args ! i] \<rparr>)"
      using st by (rule steps_extras)
    then have "steps p i0 st0 (i + 1) (st \<lparr> extras := extras st @ [args ! i] \<rparr>)"
      by (rule steps_index) simp
    with r show ?thesis by simp
  next
    case (Some a)
    have c': "(case option_loop p args (map fst parts) i a os sep ea [] of
                 Inl e \<Rightarrow> Inl e
               | Inr (action_tuples, new_extras, stop) \<Rightarrow>
                   (case take_actions p i (st \<lparr> extras := extras st @ new_extras \<rparr>)
                           action_tuples of
                      Inl e \<Rightarrow> Inl e
                    | Inr st' \<Rightarrow> Inr (stop, st'))) = Inr (j, st')"
      using c unfolding consume_optional_def sp Some by simp
    then obtain tups ex where
      ol: "option_loop p args (map fst parts) i a os sep ea [] = Inr (tups, ex, j)"
      and ta: "take_actions p i (st \<lparr> extras := extras st @ ex \<rparr>) tups = Inr st'"
      by (cases "option_loop p args (map fst parts) i a os sep ea []")
         (auto split: sum.splits)
    have "parts ! i \<in> set parts" using i by simp
    with ok sp Some
    have a: "a \<in> snd ` set (option_string_actions p)"
      unfolding parts_ok_def by blast
    have "(\<forall>t \<in> set tups. fst t \<in> snd ` set (option_string_actions p)) \<and> i < j \<and>
          a \<in> fst ` set tups \<and> set [] \<subseteq> set tups"
      using ol a
    proof (rule option_loop_result)
      show "\<forall>t\<in>set []. fst t \<in> snd ` set (option_string_actions p)" by simp
      show "\<forall>s b. map_of (option_string_actions p) s = Some b \<longrightarrow>
              b \<in> snd ` set (option_string_actions p)"
        using map_of_in_snd by fast
    qed
    then have tups: "\<forall>t \<in> set tups. fst t \<in> set (actions p)" and ij: "i < j"
      using wf unfolding wf_parser_def by blast+
    have "steps p i0 st0 i (st \<lparr> extras := extras st @ ex \<rparr>)"
      using st by (rule steps_extras)
    then have "steps p i0 st0 i st'"
      using ta tups by (rule take_actions_steps)
    then have "steps p i0 st0 j st'"
      by (rule steps_index) (use ij in simp)
    with ij show ?thesis by simp
  qed
qed

lemma loop_body_steps:
  assumes st: "steps p i0 st0 i st" and inv: "run_inv p i0 st0"
    and wf: "wf_parser p" and ok: "parts_ok p parts"
    and lc: "loop_condition parts i"
    and b: "loop_body p args parts i st = Inr (j, st')"
  shows "steps p i0 st0 j st' \<and> i < j"
proof -
  let ?n = "next_option_string_index parts i"
  note nx = next_option_string_index_props [OF lc]
  have n_len: "?n < length parts"
    using nx(2) by (simp add: option_string_indices_iff)
  have pos: "set (positionals st) \<subseteq> set (actions p)"
    using run_inv_steps [OF st inv] by (simp add: run_inv_def)
  show ?thesis
  proof (cases "i = ?n")
    case True
    with b nx(2) have "consume_optional p args parts i st = Inr (j, st')"
      by (simp add: loop_body_def Let_def)
    with st wf ok n_len True show ?thesis
      by (intro consume_optional_steps) simp_all
  next
    case False
    with b obtain pe st1 where
      cp: "consume_positionals p args (map fst parts) i st = Inr (pe, st1)"
      and rest: "(if pe > i then Inr (pe, st1)
                  else if pe \<notin> set (option_string_indices parts)
                  then consume_optional p args parts ?n
                         (st1 \<lparr> extras := extras st1 @ take (?n - pe) (drop pe args) \<rparr>)
                  else consume_optional p args parts pe st1) = Inr (j, st')"
      by (auto simp: loop_body_def Let_def split: sum.splits)
    have s1: "steps p i0 st0 pe st1"
      using st pos cp by (rule consume_positionals_steps)
    show ?thesis
    proof (cases "pe > i")
      case True
      with rest s1 show ?thesis by simp
    next
      case False
      note not_advanced = this
      have ipe: "i \<le> pe"
        using steps_le [OF s1] steps_le [OF st]
        by (metis consume_positionals_steps cp order_refl pos steps_le steps_refl)
      with not_advanced have pe: "pe = i" by simp
      show ?thesis
      proof (cases "pe \<in> set (option_string_indices parts)")
        case True
        with rest not_advanced have "consume_optional p args parts pe st1 = Inr (j, st')"
          by simp
        moreover have "pe < length parts"
          using True by (simp add: option_string_indices_iff)
        ultimately have "steps p i0 st0 j st' \<and> pe < j"
          using s1 wf ok by (intro consume_optional_steps) simp_all
        with pe show ?thesis by simp
      next
        case False
        with rest not_advanced
        have co: "consume_optional p args parts ?n
                    (st1 \<lparr> extras := extras st1 @ take (?n - pe) (drop pe args) \<rparr>) = Inr (j, st')"
          by simp
        have "steps p i0 st0 pe (st1 \<lparr> extras := extras st1 @ take (?n - pe) (drop pe args) \<rparr>)"
          using s1 by (rule steps_extras)
        then have "steps p i0 st0 ?n (st1 \<lparr> extras := extras st1 @ take (?n - pe) (drop pe args) \<rparr>)"
          by (rule steps_index) (use nx(1) pe in simp)
        then have "steps p i0 st0 j st' \<and> ?n < j"
          using wf ok n_len co by (rule consume_optional_steps)
        with nx(1) show ?thesis by simp
      qed
    qed
  qed
qed

lemma main_loop_steps:
  "steps p i0 st0 i st \<Longrightarrow> run_inv p i0 st0 \<Longrightarrow> wf_parser p \<Longrightarrow> parts_ok p parts \<Longrightarrow>
   main_loop p args parts i st = Inr (j, st') \<Longrightarrow> steps p i0 st0 j st'"
proof (induction p args parts i st rule: main_loop.induct)
  case (1 p args parts i st)
  note eq = "1.prems"(5) [unfolded main_loop.simps [of p args parts i st]]
  show ?case
  proof (cases "loop_condition parts i")
    case False
    with eq "1.prems"(1) show ?thesis by simp
  next
    case True
    with eq obtain i' st1 where
      b: "loop_body p args parts i st = Inr (i', st1)" and adv: "i' > i"
      and rec: "main_loop p args parts i' st1 = Inr (j, st')"
      by (auto split: sum.splits if_splits)
    have "steps p i0 st0 i' st1"
      using loop_body_steps [OF "1.prems"(1,2,3,4) True b] by simp
    from "1.IH" [OF True b refl adv this "1.prems"(2,3,4) rec] show ?thesis .
  qed
qed

lemma run_inv_initial: "run_inv p 0 (initial_state p)"
  by (simp add: run_inv_def initial_state_def entries_of_def replay_def mutex_ok_def
      subset_iff)

lemma run_parser_inv:
  assumes "wf_parser p" "run_parser p args = Inr st"
  shows "\<exists>j. run_inv p j st"
proof -
  from assms(2) obtain parts i st1 k st2 where
    cl: "classify p args = Inr parts"
    and ml: "main_loop p args parts 0 (initial_state p) = Inr (i, st1)"
    and cp: "consume_positionals p args (map fst parts) i st1 = Inr (k, st2)"
    and st: "st = st2 \<lparr> extras := extras st2 @ drop k args \<rparr>"
    by (auto simp: run_parser_def split: sum.splits if_splits)
  have inv0: "run_inv p 0 (initial_state p)" by (rule run_inv_initial)
  have "steps p 0 (initial_state p) i st1"
    using steps_refl inv0 assms(1) classify_parts_ok [OF cl] ml by (rule main_loop_steps)
  moreover have "set (positionals st1) \<subseteq> set (actions p)"
    using run_inv_steps [OF calculation inv0] by (simp add: run_inv_def)
  ultimately have "steps p 0 (initial_state p) k st2"
    using cp by (rule consume_positionals_steps)
  then have "run_inv p k st2" using inv0 by (rule run_inv_steps)
  then show ?thesis unfolding st by (auto simp: run_inv_extras)
qed


section \<open>The returned options\<close>

lemma replay_unchanged:
  "\<forall>e \<in> set es. dest (fst (snd e)) \<noteq> d \<Longrightarrow> replay ns es d = ns d"
proof (induction es arbitrary: ns)
  case Nil
  then show ?case by (simp add: replay_def)
next
  case (Cons e es)
  obtain i a v where e: "e = (i, a, v)" by (cases e)
  have "replay ns (e # es) = replay (ns(dest a \<mapsto> stored a v)) es"
    by (simp add: replay_def e)
  moreover have "replay (ns(dest a \<mapsto> stored a v)) es d = (ns(dest a \<mapsto> stored a v)) d"
    using Cons.prems by (intro Cons.IH) simp
  moreover have "dest a \<noteq> d" using Cons.prems e by simp
  ultimately show ?case by simp
qed

lemma replay_last:
  assumes "\<forall>e \<in> set ys. dest (fst (snd e)) \<noteq> dest a"
  shows "replay ns (xs @ [(i, a, v)] @ ys) (dest a) = Some (stored a v)"
proof -
  have "replay ns (xs @ [(i, a, v)] @ ys) = replay ((replay ns xs)(dest a \<mapsto> stored a v)) ys"
    by (simp add: replay_def)
  then show ?thesis
    using replay_unchanged [OF assms] by simp
qed

lemma cli_wf: "wf_parser (cli_parser env)"
  unfolding wf_parser_def cli_parser_actions cli_parser_option_string_actions by simp

lemma cli_dests:
  "map dest (actions (cli_parser env)) =
     [''help'', ''project'', ''package'', ''description'', ''url'', ''license'', ''force'',
      ''update'', ''pretend'', ''command'', ''version'', ''log_level'']"
  unfolding cli_parser_actions
  by (simp add: help_action_def project_action_def package_action_def description_action_def
      url_action_def license_action_def force_action_def update_action_def pretend_action_def
      list_actions_action_def version_action_def quiet_action_def)

lemma cli_dest_inj:
  assumes "a \<in> set (actions (cli_parser env))" "b \<in> set (actions (cli_parser env))"
    and "dest a = dest b"
  shows "a = b"
proof -
  have "distinct (map dest (actions (cli_parser env)))"
    unfolding cli_dests by simp
  then have "inj_on dest (set (actions (cli_parser env)))"
    by (simp add: distinct_map)
  with assms show ?thesis by (simp add: inj_on_def)
qed

lemma cli_initial_namespace:
  "initial_namespace (cli_parser env) =
     [''project'' \<mapsto> PyNone, ''package'' \<mapsto> PyNone, ''description'' \<mapsto> PyNone,
      ''url'' \<mapsto> PyNone, ''license'' \<mapsto> PyStr ''none'', ''force'' \<mapsto> PyBool False,
      ''update'' \<mapsto> PyBool False, ''pretend'' \<mapsto> PyBool False,
      ''command'' \<mapsto> PyFunc Run_scaffold, ''log_level'' \<mapsto> PyStr ''INFO'',
      ''extensions'' \<mapsto> PyList []]"
  unfolding initial_namespace_def cli_parser_actions cli_parser_defaults
  by (simp add: help_action_def project_action_def package_action_def description_action_def
      url_action_def license_action_def force_action_def update_action_def pretend_action_def
      list_actions_action_def version_action_def quiet_action_def SUPPRESS_def)

lemma rstrip_no_trailing: "rstrip c s = [] \<or> last (rstrip c s) \<noteq> c"
proof -
  have "dropWhile (\<lambda>x. x = c) (rev s) = [] \<or> hd (dropWhile (\<lambda>x. x = c) (rev s)) \<noteq> c"
    using hd_dropWhile [of "\<lambda>x. x = c" "rev s"] by blast
  then show ?thesis
    by (auto simp: rstrip_def last_rev)
qed

lemma rstrip_decompose: "s = rstrip c s @ replicate (length s - length (rstrip c s)) c"
proof -
  have "rev s = takeWhile (\<lambda>x. x = c) (rev s) @ dropWhile (\<lambda>x. x = c) (rev s)"
    by simp
  moreover have "takeWhile (\<lambda>x. x = c) (rev s) = replicate (length (takeWhile (\<lambda>x. x = c) (rev s))) c"
    by (metis (mono_tags, lifting) replicate_length_same set_takeWhileD)
  ultimately have "rev s = replicate (length (takeWhile (\<lambda>x. x = c) (rev s))) c @
                           dropWhile (\<lambda>x. x = c) (rev s)"
    by simp
  then have "s = rev (dropWhile (\<lambda>x. x = c) (rev s)) @
                 replicate (length (takeWhile (\<lambda>x. x = c) (rev s))) c"
    by (metis rev_append rev_replicate rev_rev_ident)
  moreover have "length (takeWhile (\<lambda>x. x = c) (rev s)) = length s - length (rstrip c s)"
    by (metis (no_types, lifting) add_diff_cancel_right' length_append length_rev rstrip_def
        takeWhile_dropWhile_id)
  ultimately show ?thesis by (simp add: rstrip_def)
qed

lemma rstrip_unchanged: "s = [] \<or> last s \<noteq> c \<Longrightarrow> rstrip c s = s"
  by (cases "rev s") (auto simp: rstrip_def last_rev)

lemma finish_opts_Inr:
  assumes "finish_opts ns = Inr opts"
  shows "\<exists>name. ns ''project'' = Some (PyStr name) \<and>
           opts ''project'' = Some (PyStr (rstrip os_sep name))"
    and "\<forall>k. k \<noteq> ''project'' \<longrightarrow> k \<noteq> ''log_level'' \<longrightarrow>
           opts k = (if ns k = Some PyNone then None else ns k)"
    and "\<forall>k. opts k \<noteq> Some PyNone"
  using assms
  by (auto simp: finish_opts_def Let_def split: option.splits py_value.splits)

lemma parse_args_Inr:
  assumes "parse_args env args = Inr opts"
  shows "\<exists>toks st. read_args_from_files (recursion_limit env) env (with_profile env args) = Inr toks \<and>
           run_parser (cli_parser env) toks = Inr st \<and> extras st = [] \<and>
           finish_opts (namespace st) = Inr opts"
  using assms
  by (auto simp: parse_args_def parser_parse_args_def parse_known_args_def
           split: if_splits sum.splits)

lemma entries_of_iff: "b \<in> entries_of st \<longleftrightarrow> (\<exists>e \<in> set (taken st). fst (snd e) = b)"
  by (auto simp: entries_of_def image_iff split_beta)

lemma cli_run:
  assumes "parse_args env args = Inr opts"
  shows "\<exists>toks st j.
    read_args_from_files (recursion_limit env) env (with_profile env args) = Inr toks \<and>
    run_parser (cli_parser env) toks = Inr st \<and> extras st = [] \<and>
    finish_opts (namespace st) = Inr opts \<and> run_inv (cli_parser env) j st"
proof -
  from parse_args_Inr [OF assms] obtain toks st where
    a: "read_args_from_files (recursion_limit env) env (with_profile env args) = Inr toks"
      "run_parser (cli_parser env) toks = Inr st" "extras st = []"
      "finish_opts (namespace st) = Inr opts"
    by blast
  from run_parser_inv [OF cli_wf a(2)] obtain j where "run_inv (cli_parser env) j st" by blast
  with a show ?thesis by blast
qed

lemma entry_action_by_dest:
  assumes inv: "run_inv (cli_parser env) j st" and e: "e \<in> set (taken st)"
    and a: "a \<in> set (actions (cli_parser env))" and d: "dest (fst (snd e)) = dest a"
  shows "fst (snd e) = a"
proof -
  obtain i b v where eb: "e = (i, b, v)" by (cases e)
  have "b \<in> entries_of st" using e eb by (force simp: entries_of_iff)
  then have "b \<in> set (actions (cli_parser env))"
    using inv unfolding run_inv_def by blast
  with a d eb show ?thesis by (simp add: cli_dest_inj)
qed

lemma unseen_keeps_default:
  assumes inv: "run_inv (cli_parser env) j st"
    and a: "a \<in> set (actions (cli_parser env))" and unseen: "a \<notin> seen_actions st"
  shows "namespace st (dest a) = initial_namespace (cli_parser env) (dest a)"
proof -
  have "dest (fst (snd e)) \<noteq> dest a" if e: "e \<in> set (taken st)" for e
  proof
    assume "dest (fst (snd e)) = dest a"
    from entry_action_by_dest [OF inv e a this] have "a \<in> entries_of st"
      using e by (force simp: entries_of_iff)
    with unseen inv show False unfolding run_inv_def by simp
  qed
  then have "replay (initial_namespace (cli_parser env)) (taken st) (dest a) =
             initial_namespace (cli_parser env) (dest a)"
    by (intro replay_unchanged) blast
  with inv show ?thesis unfolding run_inv_def by simp
qed

lemma replay_changed:
  "replay ns es d \<noteq> ns d \<Longrightarrow> \<exists>e \<in> set es. dest (fst (snd e)) = d"
  using replay_unchanged [of es d ns] by blast

lemma seen_when_changed:
  assumes inv: "run_inv (cli_parser env) j st"
    and a: "a \<in> set (actions (cli_parser env))"
    and ch: "namespace st (dest a) \<noteq> initial_namespace (cli_parser env) (dest a)"
  shows "a \<in> entries_of st"
proof -
  from inv have "namespace st = replay (initial_namespace (cli_parser env)) (taken st)"
    unfolding run_inv_def by blast
  with ch obtain e where e: "e \<in> set (taken st)" "dest (fst (snd e)) = dest a"
    using replay_changed by metis
  from entry_action_by_dest [OF inv e(1) a e(2)] e(1) show ?thesis
    by (force simp: entries_of_iff)
qed

lemma pretend_and_list_actions_never_both:
  assumes "parse_args env args = Inr opts"
  shows "\<not> (opts ''pretend'' = Some (PyBool True) \<and> opts ''command'' = Some (PyFunc List_actions))"
proof
  assume both: "opts ''pretend'' = Some (PyBool True) \<and> opts ''command'' = Some (PyFunc List_actions)"
  from cli_run [OF assms] obtain st :: parse_state and j where
    f: "finish_opts (namespace st) = Inr opts" and inv: "run_inv (cli_parser env) j st"
    by blast
  note fin = finish_opts_Inr(2) [OF f, rule_format]
  have "namespace st ''pretend'' = Some (PyBool True)"
    using fin [of "''pretend''"] both by (simp split: if_splits)
  then have "pretend_action \<in> entries_of st"
    using seen_when_changed [OF inv, of pretend_action]
    by (simp add: cli_parser_actions cli_initial_namespace) (simp add: pretend_action_def)
  moreover have "namespace st ''command'' = Some (PyFunc List_actions)"
    using fin [of "''command''"] both by (simp split: if_splits)
  then have "list_actions_action \<in> entries_of st"
    using seen_when_changed [OF inv, of list_actions_action]
    by (simp add: cli_parser_actions cli_initial_namespace) (simp add: list_actions_action_def)
  moreover have "pretend_action \<noteq> list_actions_action"
    by (simp add: pretend_action_def list_actions_action_def)
  moreover have "mutex_ok (cli_parser env) (entries_of st)"
    using inv unfolding run_inv_def by blast
  ultimately show False
    unfolding mutex_ok_def cli_parser_groups by simp
qed

lemma read_args_from_files_Cons:
  assumes "read_args_from_files d env (x # xs) = Inr r"
  shows "\<exists>r1 r2. read_args_from_files d env [x] = Inr r1 \<and>
                 read_args_from_files d env xs = Inr r2 \<and> r = r1 @ r2"
proof (cases d)
  case 0
  with assms show ?thesis by simp
next
  case (Suc n)
  show ?thesis
  proof (cases "x = [] \<or> hd x \<notin> set fromfile_prefix_chars")
    case True
    with assms Suc show ?thesis
      by (auto split: sum.splits)
  next
    case False
    with assms Suc show ?thesis
      by (auto split: option.splits sum.splits)
  qed
qed

lemma last_entry_wins:
  assumes inv: "run_inv (cli_parser env) j st" and e: "(i, a, v) \<in> set (taken st)"
  shows "\<exists>k w. (k, a, w) \<in> set (taken st) \<and> i \<le> k \<and> namespace st (dest a) = Some (stored a w)"
proof -
  let ?P = "\<lambda>e'. dest (fst (snd e')) = dest a"
  have a: "a \<in> set (actions (cli_parser env))"
  proof -
    have "a \<in> entries_of st" using e by (force simp: entries_of_iff)
    with inv show ?thesis unfolding run_inv_def by blast
  qed
  have "\<exists>e' \<in> set (taken st). ?P e'" using e by force
  then obtain xs x ys where
    split: "taken st = xs @ x # ys" and px: "?P x" and pys: "\<forall>y \<in> set ys. \<not> ?P y"
    by (auto dest!: split_list_last_prop)
  obtain k b w where x: "x = (k, b, w)" by (cases x)
  have "x \<in> set (taken st)" using split by simp
  from entry_action_by_dest [OF inv this a px] x have b: "b = a" by simp
  have ns: "namespace st (dest a) = Some (stored a w)"
  proof -
    have "namespace st = replay (initial_namespace (cli_parser env)) (xs @ [(k, a, w)] @ ys)"
      using inv split x b unfolding run_inv_def by simp
    moreover have "\<forall>y \<in> set ys. dest (fst (snd y)) \<noteq> dest a" using pys by blast
    ultimately show ?thesis by (simp only: replay_last)
  qed
  have srt: "sorted (map fst (xs @ x # ys))"
    using inv split unfolding run_inv_def by simp
  have "(i, a, v) \<notin> set ys" using pys by force
  with e split have "(i, a, v) \<in> set xs \<or> (i, a, v) = x" by auto
  then have "i \<le> k"
  proof
    assume "(i, a, v) \<in> set xs"
    then have "i \<in> set (map fst xs)" by force
    with srt x show ?thesis by (auto simp: sorted_append)
  next
    assume "(i, a, v) = x"
    with x show ?thesis by simp
  qed
  moreover have "(k, a, w) \<in> set (taken st)" using split x b by simp
  ultimately show ?thesis using ns by blast
qed

lemma stored_option_dest:
  assumes "a \<in> set (actions (cli_parser env))" "option_strings a \<noteq> []" "kind a = Store"
  shows "dest a \<noteq> ''project'' \<and> dest a \<noteq> ''log_level''"
  using assms unfolding cli_parser_actions
  by (auto simp: help_action_def project_action_def package_action_def description_action_def
      url_action_def license_action_def force_action_def update_action_def pretend_action_def
      list_actions_action_def version_action_def quiet_action_def)

lemma print_actions_map:
  "print_actions get_id spacing plan = map (\<lambda>a. Print (spacing @ get_id a)) plan"
  by (induction plan) simp_all

section \<open>The project name\<close>

text \<open>
  Claim C5, as stated, at the project name \<open>/\<close>: \<open>parse_args\<close> accepts it and returns the
  empty project name.
\<close>

theorem project_may_be_empty:
  "opt_value ''project'' (parse_args example_env_none [''/'']) = Inr (Some (PyStr []))"
  by code_simp

text \<open>
  Claim C5, amended. In every options record that \<open>parse_args\<close> returns, the project is a
  string without a trailing path separator; it may be empty.
\<close>

theorem project_has_no_trailing_separator:
  "parse_args env args = Inr opts \<longrightarrow>
     (\<exists>project. opts ''project'' = Some (PyStr project) \<and>
                (project = [] \<or> last project \<noteq> os_sep))"
proof
  assume "parse_args env args = Inr opts"
  from cli_run [OF this] obtain st :: parse_state where f: "finish_opts (namespace st) = Inr opts"
    by blast
  from finish_opts_Inr(1) [OF f] obtain name where
    "opts ''project'' = Some (PyStr (rstrip os_sep name))" by blast
  with rstrip_no_trailing [of os_sep name]
  show "\<exists>project. opts ''project'' = Some (PyStr project) \<and>
                (project = [] \<or> last project \<noteq> os_sep)"
    by blast
qed

theorem project_has_no_trailing_separator_witness:
  "opt_value ''project'' (parse_args example_env_none [''my-project/'']) =
     Inr (Some (PyStr ''my-project'')) \<and>
   last ''my-project'' \<noteq> os_sep"
proof -
  have v: "opt_value ''project'' (parse_args example_env_none [''my-project/'']) =
     Inr (Some (PyStr ''my-project''))"
    by code_simp
  then obtain opts where ok: "parse_args example_env_none [''my-project/''] = Inr opts"
    and p: "opts ''project'' = Some (PyStr ''my-project'')"
    by (cases "parse_args example_env_none [''my-project/'']") (auto simp: opt_value_def)
  from project_has_no_trailing_separator [of example_env_none "[''my-project/'']" opts, rule_format, OF ok]
  obtain project where "opts ''project'' = Some (PyStr project)"
    "project = [] \<or> last project \<noteq> os_sep"
    by blast
  with p have "last ''my-project'' \<noteq> os_sep" by auto
  with v show ?thesis by blast
qed

section \<open>Trailing separators of the project name\<close>

lemma classify_single_name:
  assumes "name = [] \<or> hd name \<noteq> CHR ''-''"
  shows "classify p [name] = Inr [(CHR ''A'', None)]"
proof -
  have "parse_optional p name = Inr None"
    using assms by (auto simp: parse_optional_def prefix_chars_def)
  moreover have "name \<noteq> ''--''" using assms by auto
  ultimately show ?thesis by simp
qed

lemma cli_positionals: "positionals (initial_state (cli_parser env)) = [project_action]"
  unfolding initial_state_def cli_parser_actions
  by (simp add: help_action_def project_action_def package_action_def description_action_def
      url_action_def license_action_def force_action_def update_action_def pretend_action_def
      list_actions_action_def version_action_def quiet_action_def)

lemma project_no_conflicts: "action_conflicts (cli_parser env) project_action = []"
  unfolding action_conflicts_def cli_parser_groups
  by (simp add: project_action_def pretend_action_def list_actions_action_def upt_rec)

lemma match_project: "match_arguments_partial [project_action] ''A'' = [1]"
  by (simp add: match_arguments_partial_def match_nargs_pattern_def project_action_def
      nargs_count_def dashes_def)

lemma consume_project:
  assumes "name \<noteq> ''--''"
  shows "consume_positionals (cli_parser env) [name] ''A'' 0 (initial_state (cli_parser env)) =
     Inr (1, (initial_state (cli_parser env))
               \<lparr> seen_actions := {project_action},
                 seen_non_default_actions := {project_action},
                 taken := [(0, project_action, PyStr name)],
                 namespace := (initial_namespace (cli_parser env))(''project'' \<mapsto> PyStr name),
                 positionals := [] \<rparr>)"
proof -
  have gv: "get_values project_action [name] = Inr (PyStr name)"
    using assms by (simp add: get_values_def project_action_def check_value_def)
  have ta: "take_action (cli_parser env) 0 (initial_state (cli_parser env))
              (project_action, [name], None) =
            Inr ((initial_state (cli_parser env))
               \<lparr> seen_actions := {project_action},
                 seen_non_default_actions := {project_action},
                 taken := [(0, project_action, PyStr name)],
                 namespace := (initial_namespace (cli_parser env))(''project'' \<mapsto> PyStr name) \<rparr>)"
    unfolding take_action_def
    by (simp add: gv project_no_conflicts call_action_def)
       (simp add: project_action_def initial_state_def)
  show ?thesis
    unfolding consume_positionals_def Let_def cli_positionals
    by (simp add: match_project ta cli_positionals)
qed


lemma no_option_no_loop:
  "main_loop p args [(CHR ''A'', None)] 0 st = Inr (0, st)"
  by (simp add: main_loop.simps loop_condition_def option_string_indices_def)

lemma cli_required: "filter required (actions (cli_parser env)) = [project_action]"
  unfolding cli_parser_actions
  by (simp add: help_action_def project_action_def package_action_def description_action_def
      url_action_def license_action_def force_action_def update_action_def pretend_action_def
      list_actions_action_def version_action_def quiet_action_def)

lemma run_single_name:
  assumes "name = [] \<or> hd name \<noteq> CHR ''-''"
  shows "run_parser (cli_parser env) [name] =
     Inr ((initial_state (cli_parser env))
               \<lparr> seen_actions := {project_action},
                 seen_non_default_actions := {project_action},
                 taken := [(0, project_action, PyStr name)],
                 namespace := (initial_namespace (cli_parser env))(''project'' \<mapsto> PyStr name),
                 positionals := [] \<rparr>)"
proof -
  have ne: "name \<noteq> ''--''" using assms by auto
  have req: "\<not> list_ex (\<lambda>a. a \<notin> {project_action} \<and> required a) (actions (cli_parser env))"
  proof -
    have "a = project_action" if "a \<in> set (actions (cli_parser env))" "required a" for a
    proof -
      from that have "a \<in> set (filter required (actions (cli_parser env)))" by simp
      then show ?thesis unfolding cli_required by simp
    qed
    then show ?thesis unfolding list_ex_iff by blast
  qed
  show ?thesis
    unfolding run_parser_def classify_single_name [OF assms]
    using req
    by (simp add: no_option_no_loop consume_project [OF ne])
qed

lemma parse_single_name:
  assumes none: "environ env ''PYSCAFFOLD_PROFILE'' = Some ''none''"
    and recent: "\<not> old_setuptools env" and depth: "0 < recursion_limit env"
    and name: "name = [] \<or> (hd name \<noteq> CHR ''-'' \<and> hd name \<noteq> CHR ''@'')"
  shows "\<exists>opts. parse_args env [name] = Inr opts \<and>
                opts ''project'' = Some (PyStr (rstrip os_sep name))"
proof -
  from depth obtain d where d: "recursion_limit env = Suc d" by (cases "recursion_limit env") auto
  have r: "read_args_from_files (recursion_limit env) env [name] = Inr [name]"
    unfolding d using name by (auto simp: fromfile_prefix_chars_def)
  have a: "name = [] \<or> hd name \<noteq> CHR ''-''" using name by blast
  have k: "parse_known_args (cli_parser env) env [name] =
             Inr ((initial_namespace (cli_parser env))(''project'' \<mapsto> PyStr name), [])"
    unfolding parse_known_args_def
    by (simp add: r run_single_name [OF a]) (simp add: initial_state_def)
  have p: "parser_parse_args (cli_parser env) env [name] =
             Inr ((initial_namespace (cli_parser env))(''project'' \<mapsto> PyStr name))"
    unfolding parser_parse_args_def k by simp
  have "\<exists>opts. finish_opts ((initial_namespace (cli_parser env))(''project'' \<mapsto> PyStr name)) =
                 Inr opts \<and> opts ''project'' = Some (PyStr (rstrip os_sep name))"
    unfolding cli_initial_namespace
    by (simp add: finish_opts_def logging_levels_def)
  then show ?thesis
    using none recent by (simp add: parse_args_def with_profile_def p)
qed

text \<open>
  Claim C6. Whenever \<open>parse_args\<close> returns, the project of the returned options is the
  project name that the parser stored, without its trailing path separators: the
  stored name is the returned one followed by separators only, and a name without a
  trailing separator is returned unchanged. For an argument list that consists of a
  project name alone (not starting with a dash or an at sign), with the profile
  switched off, \<open>parse_args\<close> does return, with that name stripped.
\<close>

theorem trailing_separators_are_stripped:
  "(parse_args env args = Inr opts \<longrightarrow>
      (\<exists>toks st name.
         read_args_from_files (recursion_limit env) env (with_profile env args) = Inr toks \<and>
         run_parser (cli_parser env) toks = Inr st \<and>
         namespace st ''project'' = Some (PyStr name) \<and>
         opts ''project'' = Some (PyStr (rstrip os_sep name)) \<and>
         name = rstrip os_sep name @ replicate (length name - length (rstrip os_sep name)) os_sep \<and>
         (rstrip os_sep name = [] \<or> last (rstrip os_sep name) \<noteq> os_sep) \<and>
         ((name = [] \<or> last name \<noteq> os_sep) \<longrightarrow> rstrip os_sep name = name))) \<and>
   (environ env ''PYSCAFFOLD_PROFILE'' = Some ''none'' \<and> \<not> old_setuptools env \<and>
    0 < recursion_limit env \<and>
    (project = [] \<or> (hd project \<noteq> CHR ''-'' \<and> hd project \<noteq> CHR ''@'')) \<longrightarrow>
      (\<exists>returned. parse_args env [project] = Inr returned \<and>
                   returned ''project'' = Some (PyStr (rstrip os_sep project))))"
proof (intro conjI impI)
  assume ok: "parse_args env args = Inr opts"
  from cli_run [OF ok] obtain toks and st :: parse_state where
    r: "read_args_from_files (recursion_limit env) env (with_profile env args) = Inr toks"
    and p: "run_parser (cli_parser env) toks = Inr st"
    and f: "finish_opts (namespace st) = Inr opts"
    by blast
  from finish_opts_Inr(1) [OF f] obtain name where
    n: "namespace st ''project'' = Some (PyStr name)"
       "opts ''project'' = Some (PyStr (rstrip os_sep name))"
    by blast
  have u: "(name = [] \<or> last name \<noteq> os_sep) \<longrightarrow> rstrip os_sep name = name"
    using rstrip_unchanged [of name os_sep] by blast
  from r p n rstrip_decompose [of name os_sep] rstrip_no_trailing [of os_sep name] u
  show "\<exists>toks st name.
         read_args_from_files (recursion_limit env) env (with_profile env args) = Inr toks \<and>
         run_parser (cli_parser env) toks = Inr st \<and>
         namespace st ''project'' = Some (PyStr name) \<and>
         opts ''project'' = Some (PyStr (rstrip os_sep name)) \<and>
         name = rstrip os_sep name @ replicate (length name - length (rstrip os_sep name)) os_sep \<and>
         (rstrip os_sep name = [] \<or> last (rstrip os_sep name) \<noteq> os_sep) \<and>
         ((name = [] \<or> last name \<noteq> os_sep) \<longrightarrow> rstrip os_sep name = name)"
    by blast
next
  assume "environ env ''PYSCAFFOLD_PROFILE'' = Some ''none'' \<and> \<not> old_setuptools env \<and>
    0 < recursion_limit env \<and>
    (project = [] \<or> (hd project \<noteq> CHR ''-'' \<and> hd project \<noteq> CHR ''@''))"
  then show "\<exists>returned. parse_args env [project] = Inr returned \<and>
                   returned ''project'' = Some (PyStr (rstrip os_sep project))"
    using parse_single_name [of env project] by blast
qed

theorem trailing_separators_are_stripped_witness:
  "opt_value ''project'' (parse_args example_env_none [''my-project//'']) =
     Inr (Some (PyStr ''my-project'')) \<and>
   opt_value ''project'' (parse_args example_env_none [''my-project'']) =
     Inr (Some (PyStr ''my-project''))"
proof -
  have h: "environ example_env_none ''PYSCAFFOLD_PROFILE'' = Some ''none'' \<and>
           \<not> old_setuptools example_env_none \<and> 0 < recursion_limit example_env_none"
    by (simp add: example_env_none_def example_env_def)
  note c6 = trailing_separators_are_stripped [THEN conjunct2, rule_format]
  have "\<exists>returned. parse_args example_env_none [''my-project//''] = Inr returned \<and>
          returned ''project'' = Some (PyStr (rstrip os_sep ''my-project//''))"
    by (rule c6) (use h in simp)
  then have a: "opt_value ''project'' (parse_args example_env_none [''my-project//'']) =
     Inr (Some (PyStr ''my-project''))"
    by (auto simp: opt_value_def rstrip_def os_sep_def)
  have "\<exists>returned. parse_args example_env_none [''my-project''] = Inr returned \<and>
          returned ''project'' = Some (PyStr (rstrip os_sep ''my-project''))"
    by (rule c6) (use h in simp)
  then have b: "opt_value ''project'' (parse_args example_env_none [''my-project'']) =
     Inr (Some (PyStr ''my-project''))"
    by (auto simp: opt_value_def rstrip_def os_sep_def)
  from a b show ?thesis by blast
qed

section \<open>Options that were not given\<close>

text \<open>
  Claim C7. The options record that \<open>parse_args\<close> returns binds no key to \<open>None\<close>, and when
  the run has not seen the package, description or url option, the key of that option
  is absent from the record.
\<close>

theorem absent_options_are_pruned:
  "parse_args env args = Inr opts \<longrightarrow>
     (\<forall>key. opts key \<noteq> Some PyNone) \<and>
     (\<exists>toks st.
        read_args_from_files (recursion_limit env) env (with_profile env args) = Inr toks \<and>
        run_parser (cli_parser env) toks = Inr st \<and>
        (package_action \<notin> seen_actions st \<longrightarrow> opts ''package'' = None) \<and>
        (description_action \<notin> seen_actions st \<longrightarrow> opts ''description'' = None) \<and>
        (url_action \<notin> seen_actions st \<longrightarrow> opts ''url'' = None))"
proof
  assume ok: "parse_args env args = Inr opts"
  from cli_run [OF ok] obtain toks and st :: parse_state and j where
    r: "read_args_from_files (recursion_limit env) env (with_profile env args) = Inr toks"
    and p: "run_parser (cli_parser env) toks = Inr st"
    and f: "finish_opts (namespace st) = Inr opts"
    and inv: "run_inv (cli_parser env) j st"
    by blast
  note fin = finish_opts_Inr [OF f]
  have pruned: "opts (dest a) = None"
    if a: "a \<in> set (actions (cli_parser env))" and unseen: "a \<notin> seen_actions st"
      and none: "initial_namespace (cli_parser env) (dest a) = Some PyNone"
      and d: "dest a \<noteq> ''project''" "dest a \<noteq> ''log_level''" for a
  proof -
    have "namespace st (dest a) = Some PyNone"
      using unseen_keeps_default [OF inv a unseen] none by simp
    with fin(2) d show ?thesis by simp
  qed
  have 1: "package_action \<notin> seen_actions st \<longrightarrow> opts ''package'' = None"
    using pruned [of package_action]
    by (simp add: cli_parser_actions cli_initial_namespace) (simp add: package_action_def)
  have 2: "description_action \<notin> seen_actions st \<longrightarrow> opts ''description'' = None"
    using pruned [of description_action]
    by (simp add: cli_parser_actions cli_initial_namespace) (simp add: description_action_def)
  have 3: "url_action \<notin> seen_actions st \<longrightarrow> opts ''url'' = None"
    using pruned [of url_action]
    by (simp add: cli_parser_actions cli_initial_namespace) (simp add: url_action_def)
  from fin(3) r p 1 2 3
  show "(\<forall>key. opts key \<noteq> Some PyNone) \<and>
     (\<exists>toks st.
        read_args_from_files (recursion_limit env) env (with_profile env args) = Inr toks \<and>
        run_parser (cli_parser env) toks = Inr st \<and>
        (package_action \<notin> seen_actions st \<longrightarrow> opts ''package'' = None) \<and>
        (description_action \<notin> seen_actions st \<longrightarrow> opts ''description'' = None) \<and>
        (url_action \<notin> seen_actions st \<longrightarrow> opts ''url'' = None))"
    by blast
qed

theorem absent_options_are_pruned_witness:
  "opt_value ''package'' (parse_args example_env_none [''my-project'']) = Inr None \<and>
   opt_value ''description'' (parse_args example_env_none [''my-project'']) = Inr None \<and>
   opt_value ''url'' (parse_args example_env_none [''my-project'']) = Inr None \<and>
   opt_value ''license'' (parse_args example_env_none [''my-project'']) \<noteq> Inr (Some PyNone)"
proof -
  let ?args = "[''my-project'']"
  have "\<not> isl (parse_args example_env_none ?args)" by code_simp
  then obtain opts where ok: "parse_args example_env_none ?args = Inr opts"
    by (cases "parse_args example_env_none ?args") auto
  have toks: "read_args_from_files (recursion_limit example_env_none) example_env_none
                (with_profile example_env_none ?args) = Inr ?args"
    by code_simp
  have seen: "history_of (run_parser (cli_parser example_env_none) ?args) =
                Inr [(0, project_action, PyStr ''my-project'')]"
    by code_simp
  from absent_options_are_pruned [of example_env_none ?args opts, rule_format, OF ok]
  obtain toks' and st :: parse_state where
    nn: "\<forall>key. opts key \<noteq> Some PyNone"
    and r: "read_args_from_files (recursion_limit example_env_none) example_env_none
              (with_profile example_env_none ?args) = Inr toks'"
    and run: "run_parser (cli_parser example_env_none) toks' = Inr st"
    and pr: "package_action \<notin> seen_actions st \<longrightarrow> opts ''package'' = None"
      "description_action \<notin> seen_actions st \<longrightarrow> opts ''description'' = None"
      "url_action \<notin> seen_actions st \<longrightarrow> opts ''url'' = None"
    by blast
  have t: "toks' = ?args" using r toks by simp
  have hist: "taken st = [(0, project_action, PyStr ''my-project'')]"
    using seen run unfolding t by (simp add: history_of_def)
  from run_parser_inv [OF cli_wf run] obtain j where "run_inv (cli_parser example_env_none) j st"
    by blast
  then have "seen_actions st = {project_action}"
    unfolding run_inv_def entries_of_def hist by simp
  then have "package_action \<notin> seen_actions st" "description_action \<notin> seen_actions st"
    "url_action \<notin> seen_actions st"
    by (simp_all add: project_action_def package_action_def description_action_def url_action_def)
  with pr have "opts ''package'' = None" "opts ''description'' = None" "opts ''url'' = None"
    by simp_all
  with ok nn show ?thesis by (simp add: opt_value_def)
qed

section \<open>The mutually exclusive flags\<close>

text \<open>
  Every string before the first \<open>--\<close> that is classified as an option of the parser has
  its action taken before the run ends: positionals never consume a string with the
  letter \<open>O\<close>, an option consumes its own string and arguments that are not options, and
  the loop goes on until no option string is left.
\<close>

lemma classify_shape:
  "classify p args = Inr parts \<Longrightarrow> parts_shape parts \<and> length parts = length args"
proof (induction args arbitrary: parts)
  case Nil
  then show ?case by (simp add: parts_shape_def)
next
  case (Cons s args)
  show ?case
  proof (cases "s = ''--''")
    case True
    with Cons.prems show ?thesis
      by (auto simp: parts_shape_def list_all_iff)
  next
    case False
    with Cons.prems obtain t rest where
      rest: "classify p args = Inr rest"
      and parts: "parts = (if t = None then CHR ''A'' else CHR ''O'', t) # rest"
      by (auto split: sum.splits)
    from Cons.IH [OF rest] show ?thesis
      unfolding parts by (auto simp: parts_shape_def)
  qed
qed

lemma no_option_0: "no_option pat 0"
  by (simp add: no_option_def)

lemma dashes_no_option: "no_option pat (dashes pat)"
proof -
  have "take (dashes pat) pat = takeWhile (\<lambda>c. c = CHR ''-'') pat"
    unfolding dashes_def by (induction pat) auto
  moreover have "list_all (\<lambda>c. c \<noteq> CHR ''O'') (takeWhile (\<lambda>c. c = CHR ''-'') pat)"
    by (auto simp: list_all_iff dest: set_takeWhileD)
  moreover have "dashes pat \<le> length pat"
    unfolding dashes_def by (rule length_takeWhile_le)
  ultimately show ?thesis by (simp add: no_option_def)
qed

lemma no_option_add:
  assumes "no_option pat n" "no_option (drop n pat) m"
  shows "no_option pat (n + m)"
proof -
  have "take (n + m) pat = take n pat @ take m (drop n pat)"
    by (simp add: take_add)
  with assms show ?thesis by (auto simp: no_option_def)
qed

lemma no_option_Cons:
  "c \<noteq> CHR ''O'' \<Longrightarrow> no_option cs n \<Longrightarrow> no_option (c # cs) (Suc n)"
  by (simp add: no_option_def)

lemma match_As_no_option: "match_As n pat = Some k \<Longrightarrow> no_option pat k"
proof (induction n pat arbitrary: k rule: match_As.induct)
  case (1 pat)
  then show ?case by (simp add: no_option_0)
next
  case (2 n)
  then show ?case by simp
next
  case (3 n c cs)
  from "3.prems" obtain k' where
    c: "c = CHR ''A''" and k': "match_As n (drop (dashes cs) cs) = Some k'"
    and k: "k = Suc (dashes cs + k')"
    by (auto split: if_splits)
  from "3.IH" [OF c k'] have "no_option (drop (dashes cs) cs) k'" .
  with dashes_no_option [of cs] have "no_option cs (dashes cs + k')"
    by (rule no_option_add)
  then show ?case unfolding k c by (intro no_option_Cons) simp_all
qed

lemma match_nargs_pattern_no_option:
  assumes "match_nargs_pattern a pat = Some k"
  shows "no_option pat k"
proof (cases "option_strings a = []")
  case True
  with assms obtain k' where k': "match_As (nargs_count a) (drop (dashes pat) pat) = Some k'"
    and k: "k = dashes pat + k'"
    by (auto simp: match_nargs_pattern_def)
  from match_As_no_option [OF k'] dashes_no_option [of pat] show ?thesis
    unfolding k by (intro no_option_add)
next
  case False
  with assms have t: "take k pat = replicate k CHR ''A''" and k: "k = nargs_count a"
    by (auto simp: match_nargs_pattern_def split: if_splits)
  have "length (take k pat) = k" unfolding t by simp
  then have "k \<le> length pat" by simp
  moreover have "list_all (\<lambda>c. c \<noteq> CHR ''O'') (take k pat)"
    unfolding t by (simp add: list_all_iff)
  ultimately show ?thesis by (simp add: no_option_def)
qed

lemma match_groups_no_option:
  "match_groups acts pat = Some ks \<Longrightarrow> no_option pat (sum_list ks) \<and> length ks = length acts"
proof (induction acts arbitrary: pat ks)
  case Nil
  then show ?case by (simp add: no_option_0)
next
  case (Cons a acts)
  from Cons.prems obtain k ks' where
    k: "match_nargs_pattern a pat = Some k" and ks': "match_groups acts (drop k pat) = Some ks'"
    and ks: "ks = k # ks'"
    by (auto split: option.splits)
  from Cons.IH [OF ks'] match_nargs_pattern_no_option [OF k]
  show ?case unfolding ks by (auto intro: no_option_add)
qed

lemma match_slices_no_option:
  "n \<le> length acts \<Longrightarrow>
   no_option pat (sum_list (match_slices n acts pat)) \<and> length (match_slices n acts pat) \<le> length acts"
proof (induction n)
  case 0
  then show ?case by (simp add: no_option_0)
next
  case (Suc n)
  show ?case
  proof (cases "match_groups (take (Suc n) acts) pat")
    case None
    with Suc show ?thesis by simp
  next
    case (Some ks)
    from match_groups_no_option [OF Some] Suc.prems show ?thesis
      by (simp add: Some)
  qed
qed

lemma take_positionals_stop:
  "take_positionals p args j st zs = Inr (k, st') \<Longrightarrow> k = j + sum_list (map snd zs)"
proof (induction zs arbitrary: j st)
  case Nil
  then show ?case by simp
next
  case (Cons z zs)
  obtain a n where z: "z = (a, n)" by (cases z)
  from Cons.prems obtain st1 where
    rest: "take_positionals p args (j + n) st1 zs = Inr (k, st')"
    by (auto simp: z split: sum.splits)
  from Cons.IH [OF rest] show ?case by (simp add: z)
qed

lemma consume_positionals_region:
  assumes "consume_positionals p args pat j st = Inr (k, st')"
  shows "j \<le> k \<and> no_option (drop j pat) (k - j)"
proof -
  let ?counts = "match_arguments_partial (positionals st) (drop j pat)"
  from assms obtain st1 where
    tp: "take_positionals p args j st (zip (positionals st) ?counts) = Inr (k, st1)"
    by (auto simp: consume_positionals_def Let_def split: sum.splits)
  have m: "no_option (drop j pat) (sum_list ?counts) \<and> length ?counts \<le> length (positionals st)"
    unfolding match_arguments_partial_def by (rule match_slices_no_option) simp
  then have "map snd (zip (positionals st) ?counts) = ?counts"
    by (simp add: map_snd_zip_take)
  with take_positionals_stop [OF tp] have "k = j + sum_list ?counts" by simp
  with m show ?thesis by simp
qed


lemma take_action_seen:
  "take_action p j st (a, strs, os) = Inr st' \<Longrightarrow>
   seen_non_default_actions st' = insert a (seen_non_default_actions st)"
  by (auto dest!: take_action_Inr)

lemma take_actions_seen:
  "take_actions p j st tups = Inr st' \<Longrightarrow>
   seen_non_default_actions st' = seen_non_default_actions st \<union> fst ` set tups"
proof (induction tups arbitrary: st)
  case Nil
  then show ?case by simp
next
  case (Cons t tups)
  obtain a strs os where t: "t = (a, strs, os)" by (cases t)
  from Cons.prems obtain st1 where
    one: "take_action p j st (a, strs, os) = Inr st1" and rest: "take_actions p j st1 tups = Inr st'"
    by (auto simp: t split: sum.splits)
  from Cons.IH [OF rest] take_action_seen [OF one] show ?case by (auto simp: t)
qed

lemma take_positionals_seen:
  "take_positionals p args j st zs = Inr (k, st') \<Longrightarrow>
   seen_non_default_actions st \<subseteq> seen_non_default_actions st'"
proof (induction zs arbitrary: j st)
  case Nil
  then show ?case by simp
next
  case (Cons z zs)
  obtain a n where z: "z = (a, n)" by (cases z)
  from Cons.prems obtain st1 where
    one: "take_action p j st (a, take n (drop j args), None) = Inr st1"
    and rest: "take_positionals p args (j + n) st1 zs = Inr (k, st')"
    by (auto simp: z split: sum.splits)
  from Cons.IH [OF rest] take_action_seen [OF one] show ?case by auto
qed

lemma consume_positionals_seen:
  assumes "consume_positionals p args pat j st = Inr (k, st')"
  shows "seen_non_default_actions st \<subseteq> seen_non_default_actions st'"
proof -
  from assms obtain st1 counts where
    tp: "take_positionals p args j st (zip (positionals st) counts) = Inr (k, st1)"
    and st': "st' = st1 \<lparr> positionals := drop (length counts) (positionals st1) \<rparr>"
    by (auto simp: consume_positionals_def Let_def split: sum.splits)
  from take_positionals_seen [OF tp] show ?thesis by (simp add: st')
qed

lemma consumed_mono:
  "consumed parts n seen \<Longrightarrow> seen \<subseteq> seen' \<Longrightarrow> consumed parts n seen'"
  unfolding consumed_def list_all_iff
  by (auto split: option.splits prod.splits)

lemma consumed_skip:
  assumes c: "consumed parts i seen" and sh: "parts_shape parts" and ij: "i \<le> j"
    and no: "no_option (drop i (map fst parts)) (j - i)"
  shows "consumed parts j seen"
proof -
  have tk: "take j parts = take i parts @ take (j - i) (drop i parts)"
    using ij by (metis le_add_diff_inverse take_add)
  have "snd part = None" if "part \<in> set (take (j - i) (drop i parts))" for part
  proof -
    from that have "fst part \<in> set (take (j - i) (drop i (map fst parts)))"
      by (force simp: take_map drop_map)
    with no have "fst part \<noteq> CHR ''O''"
      by (auto simp: no_option_def list_all_iff)
    moreover have "part \<in> set parts"
      using that by (meson in_set_dropD in_set_takeD)
    ultimately show ?thesis
      using sh by (cases "snd part") (auto simp: parts_shape_def list_all_iff)
  qed
  then have "list_all (\<lambda>part. case snd part of Some (Some a, os, sep, ea) \<Rightarrow> a \<in> seen | _ \<Rightarrow> True)
               (take (j - i) (drop i parts))"
    by (auto simp: list_all_iff)
  with c show ?thesis unfolding consumed_def tk by simp
qed

lemma consumed_Suc:
  assumes c: "consumed parts i seen" and i: "i < length parts"
    and a: "\<And>a os sep ea. snd (parts ! i) = Some (Some a, os, sep, ea) \<Longrightarrow> a \<in> seen"
  shows "consumed parts (Suc i) seen"
proof -
  have "take (Suc i) parts = take i parts @ [parts ! i]"
    using i by (rule take_Suc_conv_app_nth)
  with c a show ?thesis
    unfolding consumed_def by (auto split: option.splits prod.splits)
qed

lemma option_loop_region:
  "option_loop p args pat i a os sep ea tups0 = Inr (tups, ex, stop) \<Longrightarrow>
   i < stop \<and> no_option (drop (Suc i) pat) (stop - Suc i)"
proof (induction p args pat i a os sep ea tups0 rule: option_loop.induct)
  case (1 p args pat i a os sep ea tups0)
  note eq = "1.prems"(1) [unfolded option_loop.simps [of p args pat i a os sep ea tups0]]
  show ?case
  proof (cases ea)
    case None
    with eq obtain n where n: "match_nargs_pattern a (drop (i + 1) pat) = Some n"
      and stop: "stop = i + 1 + n"
      by (auto split: option.splits)
    from match_nargs_pattern_no_option [OF n] show ?thesis by (simp add: stop)
  next
    case (Some e)
    show ?thesis
    proof (cases "match_nargs_pattern a ''A''")
      case None
      with eq Some show ?thesis by simp
    next
      case (Some n)
      note n = this
      show ?thesis
      proof (cases "n = 0 \<and> hd (tl os) \<notin> set prefix_chars \<and> e \<noteq> []")
        case False
        with eq \<open>ea = Some e\<close> n have "stop = i + 1"
          by (auto split: if_splits)
        then show ?thesis by (simp add: no_option_0)
      next
        case True
        note cluster = this
        show ?thesis
        proof (cases "(sep \<noteq> None \<and> sep \<noteq> Some []) \<or> hd e \<in> set prefix_chars")
          case True
          with eq \<open>ea = Some e\<close> n cluster show ?thesis by simp
        next
          case False
          note nosep = this
          show ?thesis
          proof (cases "map_of (option_string_actions p) [hd os, hd e]")
            case None
            with eq \<open>ea = Some e\<close> n cluster nosep have "stop = i + 1"
              by auto
            then show ?thesis by (simp add: no_option_0)
          next
            case (Some a')
            show ?thesis
            proof (cases "tl e = []")
              case True
              with eq \<open>ea = Some e\<close> n cluster nosep Some
              have "option_loop p args pat i a' [hd os, hd e] None None
                      (tups0 @ [(a, [], Some os)]) = Inr (tups, ex, stop)"
                by auto
              from "1.IH"(1) [OF \<open>ea = Some e\<close> n _ _ Some True this] cluster nosep
              show ?thesis by blast
            next
              case False
              note tl = this
              show ?thesis
              proof (cases "hd (tl e) = CHR ''=''")
                case True
                with eq \<open>ea = Some e\<close> n cluster nosep Some tl
                have "option_loop p args pat i a' [hd os, hd e] (Some ''='') (Some (tl (tl e)))
                        (tups0 @ [(a, [], Some os)]) = Inr (tups, ex, stop)"
                  by auto
                from "1.IH"(2) [OF \<open>ea = Some e\<close> n _ _ Some tl True this] cluster nosep
                show ?thesis by blast
              next
                case False
                with eq \<open>ea = Some e\<close> n cluster nosep Some tl
                have "option_loop p args pat i a' [hd os, hd e] (Some []) (Some (tl e))
                        (tups0 @ [(a, [], Some os)]) = Inr (tups, ex, stop)"
                  by auto
                from "1.IH"(3) [OF \<open>ea = Some e\<close> n _ _ Some tl False this] cluster nosep
                show ?thesis by blast
              qed
            qed
          qed
        qed
      qed
    qed
  qed
qed


lemma consumed_iff:
  "consumed parts n seen \<longleftrightarrow>
     (\<forall>k. k < n \<longrightarrow> k < length parts \<longrightarrow>
        (\<forall>a os sep ea. snd (parts ! k) = Some (Some a, os, sep, ea) \<longrightarrow> a \<in> seen))"
  unfolding consumed_def list_all_length
  by (auto split: option.splits prod.splits)

lemma consumed_none:
  assumes c: "consumed parts i seen"
    and no: "\<And>k. i \<le> k \<Longrightarrow> k < j \<Longrightarrow> k < length parts \<Longrightarrow> snd (parts ! k) = None"
  shows "consumed parts j seen"
  unfolding consumed_iff
proof (intro allI impI)
  fix k a os sep ea
  assume k: "k < j" "k < length parts" and s: "snd (parts ! k) = Some (Some a, os, sep, ea)"
  show "a \<in> seen"
  proof (cases "k < i")
    case True
    with c k s show ?thesis unfolding consumed_iff by blast
  next
    case False
    with no [of k] k s show ?thesis by simp
  qed
qed

lemma consume_optional_consumed:
  assumes c: "consumed parts i (seen_non_default_actions st)"
    and i: "i < length parts" and sh: "parts_shape parts"
    and co: "consume_optional p args parts i st = Inr (j, st')"
  shows "consumed parts j (seen_non_default_actions st')"
proof (cases "snd (parts ! i)")
  case None
  with co show ?thesis by (simp add: consume_optional_def)
next
  case (Some t)
  obtain ao os sep ea where t: "t = (ao, os, sep, ea)" by (cases t)
  have sp: "snd (parts ! i) = Some (ao, os, sep, ea)" using Some t by simp
  show ?thesis
  proof (cases ao)
    case None
    have "Inr (i + 1, st \<lparr> extras := extras st @ [args ! i] \<rparr>) = Inr (j, st')"
      using co unfolding consume_optional_def sp None by simp
    then have r: "j = Suc i" "st' = st \<lparr> extras := extras st @ [args ! i] \<rparr>"
      by simp_all
    have "consumed parts (Suc i) (seen_non_default_actions st)"
      using c i by (rule consumed_Suc) (simp add: sp None)
    then show ?thesis by (simp add: r)
  next
    case (Some a)
    have c': "(case option_loop p args (map fst parts) i a os sep ea [] of
                 Inl e \<Rightarrow> Inl e
               | Inr (action_tuples, new_extras, stop) \<Rightarrow>
                   (case take_actions p i (st \<lparr> extras := extras st @ new_extras \<rparr>)
                           action_tuples of
                      Inl e \<Rightarrow> Inl e
                    | Inr st' \<Rightarrow> Inr (stop, st'))) = Inr (j, st')"
      using co unfolding consume_optional_def sp Some by simp
    then obtain tups ex where
      ol: "option_loop p args (map fst parts) i a os sep ea [] = Inr (tups, ex, j)"
      and ta: "take_actions p i (st \<lparr> extras := extras st @ ex \<rparr>) tups = Inr st'"
      by (cases "option_loop p args (map fst parts) i a os sep ea []")
         (auto split: sum.splits)
    have "(\<forall>t \<in> set tups. fst t \<in> UNIV) \<and> i < j \<and> a \<in> fst ` set tups \<and> set [] \<subseteq> set tups"
      using ol by (rule option_loop_result) simp_all
    then have a: "a \<in> fst ` set tups" by blast
    from option_loop_region [OF ol]
    have ij: "i < j" and no: "no_option (drop (Suc i) (map fst parts)) (j - Suc i)"
      by simp_all
    have seen: "seen_non_default_actions st' = seen_non_default_actions st \<union> fst ` set tups"
      using take_actions_seen [OF ta] by simp
    have "consumed parts i (seen_non_default_actions st')"
      using c by (rule consumed_mono) (simp add: seen)
    then have "consumed parts (Suc i) (seen_non_default_actions st')"
      using i by (rule consumed_Suc) (use sp Some a seen in simp)
    then show ?thesis
      using sh by (rule consumed_skip) (use ij no in simp_all)
  qed
qed

lemma loop_body_consumed:
  assumes c: "consumed parts i (seen_non_default_actions st)"
    and sh: "parts_shape parts"
    and lc: "loop_condition parts i"
    and b: "loop_body p args parts i st = Inr (j, st')"
  shows "consumed parts j (seen_non_default_actions st')"
proof -
  let ?n = "next_option_string_index parts i"
  note nx = next_option_string_index_props [OF lc]
  have n_len: "?n < length parts"
    using nx(2) by (simp add: option_string_indices_iff)
  show ?thesis
  proof (cases "i = ?n")
    case True
    with b nx(2) have "consume_optional p args parts i st = Inr (j, st')"
      by (simp add: loop_body_def Let_def)
    with c sh n_len True show ?thesis
      by (intro consume_optional_consumed [of parts i st p args j st']) simp_all
  next
    case False
    with b obtain pe st1 where
      cp: "consume_positionals p args (map fst parts) i st = Inr (pe, st1)"
      and rest: "(if pe > i then Inr (pe, st1)
                  else if pe \<notin> set (option_string_indices parts)
                  then consume_optional p args parts ?n
                         (st1 \<lparr> extras := extras st1 @ take (?n - pe) (drop pe args) \<rparr>)
                  else consume_optional p args parts pe st1) = Inr (j, st')"
      by (auto simp: loop_body_def Let_def split: sum.splits)
    from consume_positionals_region [OF cp]
    have ipe: "i \<le> pe" and no: "no_option (drop i (map fst parts)) (pe - i)"
      by simp_all
    have "consumed parts i (seen_non_default_actions st1)"
      using c consume_positionals_seen [OF cp] by (rule consumed_mono)
    then have c1: "consumed parts pe (seen_non_default_actions st1)"
      using sh ipe no by (rule consumed_skip)
    show ?thesis
    proof (cases "pe > i")
      case True
      with rest c1 show ?thesis by simp
    next
      case False
      with ipe have pe: "pe = i" by simp
      show ?thesis
      proof (cases "pe \<in> set (option_string_indices parts)")
        case True
        with rest pe have "consume_optional p args parts pe st1 = Inr (j, st')"
          by simp
        moreover have "pe < length parts"
          using True by (simp add: option_string_indices_iff)
        ultimately show ?thesis
          using c1 sh by (intro consume_optional_consumed [of parts pe st1 p args j st'])
      next
        case False
        let ?st = "st1 \<lparr> extras := extras st1 @ take (?n - pe) (drop pe args) \<rparr>"
        from False rest pe
        have co: "consume_optional p args parts ?n ?st = Inr (j, st')"
          by simp
        have "consumed parts ?n (seen_non_default_actions st1)"
          using c1
        proof (rule consumed_none)
          fix k
          assume k: "pe \<le> k" "k < ?n" "k < length parts"
          show "snd (parts ! k) = None"
          proof (rule ccontr)
            assume "snd (parts ! k) \<noteq> None"
            with k have "k \<in> set (option_string_indices parts)"
              by (simp add: option_string_indices_iff)
            with nx(3) k pe show False by auto
          qed
        qed
        then have "consumed parts ?n (seen_non_default_actions ?st)" by simp
        then show ?thesis
          using n_len sh co by (rule consume_optional_consumed)
      qed
    qed
  qed
qed

lemma main_loop_consumed:
  "consumed parts i (seen_non_default_actions st) \<Longrightarrow> parts_shape parts \<Longrightarrow>
   main_loop p args parts i st = Inr (j, st') \<Longrightarrow>
   consumed parts j (seen_non_default_actions st') \<and> \<not> loop_condition parts j"
proof (induction p args parts i st rule: main_loop.induct)
  case (1 p args parts i st)
  note eq = "1.prems"(3) [unfolded main_loop.simps [of p args parts i st]]
  show ?case
  proof (cases "loop_condition parts i")
    case False
    with eq "1.prems"(1) show ?thesis by simp
  next
    case True
    with eq obtain i' st1 where
      b: "loop_body p args parts i st = Inr (i', st1)" and adv: "i' > i"
      and rec: "main_loop p args parts i' st1 = Inr (j, st')"
      by (auto split: sum.splits if_splits)
    have "consumed parts i' (seen_non_default_actions st1)"
      using "1.prems"(1,2) True b by (rule loop_body_consumed)
    from "1.IH" [OF True b refl adv this "1.prems"(2) rec] show ?thesis .
  qed
qed

lemma consumed_all:
  assumes c: "consumed parts j seen" and lc: "\<not> loop_condition parts j"
  shows "consumed parts n seen"
  using c
proof (rule consumed_none)
  fix k
  assume k: "j \<le> k" "k < length parts"
  show "snd (parts ! k) = None"
  proof (rule ccontr)
    assume "snd (parts ! k) \<noteq> None"
    with k have in_set: "k \<in> set (option_string_indices parts)"
      by (simp add: option_string_indices_iff)
    then have "k \<le> Max (set (option_string_indices parts))"
      by (intro Max_ge) simp_all
    with in_set k lc show False
      unfolding loop_condition_def by (metis empty_iff empty_set le_trans)
  qed
qed

lemma run_parser_consumed:
  assumes r: "run_parser p args = Inr st" and cl: "classify p args = Inr parts"
    and part: "part \<in> set parts" and s: "snd part = Some (Some a, os, sep, ea)"
  shows "a \<in> seen_non_default_actions st"
proof -
  from r cl obtain i st1 k st2 where
    ml: "main_loop p args parts 0 (initial_state p) = Inr (i, st1)"
    and cp: "consume_positionals p args (map fst parts) i st1 = Inr (k, st2)"
    and st: "st = st2 \<lparr> extras := extras st2 @ drop k args \<rparr>"
    by (auto simp: run_parser_def split: sum.splits if_splits)
  have sh: "parts_shape parts" using classify_shape [OF cl] by simp
  have "consumed parts 0 (seen_non_default_actions (initial_state p))"
    by (simp add: consumed_def)
  from main_loop_consumed [OF this sh ml]
  have "consumed parts (length parts) (seen_non_default_actions st1)"
    by (auto intro: consumed_all)
  then have "consumed parts (length parts) (seen_non_default_actions st2)"
    using consume_positionals_seen [OF cp] by (rule consumed_mono)
  with part s show ?thesis
    unfolding consumed_def st by (auto simp: list_all_iff)
qed

lemma classify_before_dashes:
  "classify p toks = Inr parts \<Longrightarrow> t \<in> set (takeWhile (\<lambda>t. t \<noteq> ''--'') toks) \<Longrightarrow>
   \<exists>part \<in> set parts. parse_optional p t = Inr (snd part)"
proof (induction toks arbitrary: parts)
  case Nil
  then show ?case by simp
next
  case (Cons s toks)
  show ?case
  proof (cases "s = ''--''")
    case True
    with Cons.prems show ?thesis by simp
  next
    case False
    with Cons.prems(1) obtain u rest where
      u: "parse_optional p s = Inr u" and rest: "classify p toks = Inr rest"
      and parts: "parts = (if u = None then CHR ''A'' else CHR ''O'', u) # rest"
      by (auto split: sum.splits)
    from Cons.prems(2) False have "t = s \<or> t \<in> set (takeWhile (\<lambda>t. t \<noteq> ''--'') toks)"
      by auto
    then show ?thesis
    proof
      assume "t = s"
      with u show ?thesis unfolding parts by simp
    next
      assume "t \<in> set (takeWhile (\<lambda>t. t \<noteq> ''--'') toks)"
      from Cons.IH [OF rest this] show ?thesis unfolding parts by auto
    qed
  qed
qed

lemma parse_optional_flags:
  "parse_optional (cli_parser env) ''--pretend'' = Inr (Some (Some pretend_action, ''--pretend'', None, None))"
  "parse_optional (cli_parser env) ''--dry-run'' = Inr (Some (Some pretend_action, ''--dry-run'', None, None))"
  "parse_optional (cli_parser env) ''--list-actions'' =
     Inr (Some (Some list_actions_action, ''--list-actions'', None, None))"
  by (simp_all add: parse_optional_def cli_parser_option_string_actions prefix_chars_def)

lemma run_parser_flag:
  assumes r: "run_parser (cli_parser env) toks = Inr st"
    and t: "t \<in> set (takeWhile (\<lambda>t. t \<noteq> ''--'') toks)"
    and po: "parse_optional (cli_parser env) t = Inr (Some (Some a, os, sep, ea))"
  shows "a \<in> seen_non_default_actions st"
proof -
  from r obtain parts where cl: "classify (cli_parser env) toks = Inr parts"
    by (auto simp: run_parser_def split: sum.splits)
  from classify_before_dashes [OF cl t] po obtain part where
    "part \<in> set parts" "snd part = Some (Some a, os, sep, ea)"
    by auto
  with r cl show ?thesis by (rule run_parser_consumed)
qed

lemma exclusive_flags_stop_the_parser:
  assumes p: "''--pretend'' \<in> set (takeWhile (\<lambda>t. t \<noteq> ''--'') toks) \<or>
              ''--dry-run'' \<in> set (takeWhile (\<lambda>t. t \<noteq> ''--'') toks)"
    and l: "''--list-actions'' \<in> set (takeWhile (\<lambda>t. t \<noteq> ''--'') toks)"
  shows "\<exists>e. run_parser (cli_parser env) toks = Inl e"
proof (cases "run_parser (cli_parser env) toks")
  case (Inl e)
  then show ?thesis by blast
next
  case (Inr st)
  from run_parser_inv [OF cli_wf Inr] obtain j where inv: "run_inv (cli_parser env) j st"
    by blast
  have "pretend_action \<in> seen_non_default_actions st"
    using p run_parser_flag [OF Inr _ parse_optional_flags(1)]
      run_parser_flag [OF Inr _ parse_optional_flags(2)] by blast
  moreover have "list_actions_action \<in> seen_non_default_actions st"
    using l run_parser_flag [OF Inr _ parse_optional_flags(3)] by blast
  moreover have "seen_non_default_actions st = entries_of st"
    and "mutex_ok (cli_parser env) (entries_of st)"
    using inv unfolding run_inv_def by blast+
  moreover have "pretend_action \<noteq> list_actions_action"
    by (simp add: pretend_action_def list_actions_action_def)
  ultimately have False
    unfolding mutex_ok_def cli_parser_groups by simp
  then show ?thesis ..
qed

text \<open>
  After \<open>--\<close> a string is an argument, whatever it looks like: here \<open>--pretend\<close> is the name
  of the project and the run is accepted.
\<close>

lemma after_dashes_is_the_project:
  "opt_value ''project'' (parse_args example_env_none [''--list-actions'', ''--'', ''--pretend'']) =
     Inr (Some (PyStr ''--pretend'')) \<and>
   opt_value ''pretend'' (parse_args example_env_none [''--list-actions'', ''--'', ''--pretend'']) =
     Inr (Some (PyBool False))"
  by code_simp

text \<open>
  Claim C8. In every options record that \<open>parse_args\<close> returns, \<open>pretend\<close> and the command
  \<open>list_actions\<close> are never both set. When the argument strings, once the argument files
  are expanded, hold \<open>--pretend\<close> or \<open>--dry-run\<close> and also \<open>--list-actions\<close> before any \<open>--\<close>,
  \<open>parse_args\<close> raises, and \<open>main\<close> raises the same without calling a command, whatever
  the commands would do.
\<close>

theorem pretend_and_list_actions_are_exclusive:
  "(\<forall>opts. parse_args env args = Inr opts \<longrightarrow>
      \<not> (opts ''pretend'' = Some (PyBool True) \<and>
         opts ''command'' = Some (PyFunc List_actions))) \<and>
   (\<forall>toks. read_args_from_files (recursion_limit env) env (with_profile env args) = Inr toks \<and>
           (''--pretend'' \<in> set (takeWhile (\<lambda>t. t \<noteq> ''--'') toks) \<or>
            ''--dry-run'' \<in> set (takeWhile (\<lambda>t. t \<noteq> ''--'') toks)) \<and>
           ''--list-actions'' \<in> set (takeWhile (\<lambda>t. t \<noteq> ''--'') toks) \<longrightarrow>
      (\<exists>e. parse_args env args = Inl e \<and>
           main discover_actions get_id spacing run_scaffold env args = Inl e))"
proof (intro conjI allI impI)
  fix opts
  assume "parse_args env args = Inr opts"
  then show "\<not> (opts ''pretend'' = Some (PyBool True) \<and>
                opts ''command'' = Some (PyFunc List_actions))"
    by (rule pretend_and_list_actions_never_both)
next
  fix toks
  assume a: "read_args_from_files (recursion_limit env) env (with_profile env args) = Inr toks \<and>
           (''--pretend'' \<in> set (takeWhile (\<lambda>t. t \<noteq> ''--'') toks) \<or>
            ''--dry-run'' \<in> set (takeWhile (\<lambda>t. t \<noteq> ''--'') toks)) \<and>
           ''--list-actions'' \<in> set (takeWhile (\<lambda>t. t \<noteq> ''--'') toks)"
  then obtain e where e: "run_parser (cli_parser env) toks = Inl e"
    using exclusive_flags_stop_the_parser [of toks env] by blast
  have "parse_args env args = Inl (if old_setuptools env then OldSetuptools else e)"
    using a e by (simp add: parse_args_def parser_parse_args_def parse_known_args_def)
  then show "\<exists>e. parse_args env args = Inl e \<and>
           main discover_actions get_id spacing run_scaffold env args = Inl e"
    by (simp add: main_def)
qed

theorem pretend_and_list_actions_are_exclusive_witness:
  "opt_value ''pretend'' (parse_args example_env_none [''my-project'', ''--pretend'']) =
     Inr (Some (PyBool True)) \<and>
   opt_value ''command'' (parse_args example_env_none [''my-project'', ''--pretend'']) \<noteq>
     Inr (Some (PyFunc List_actions)) \<and>
   main example_plan id ''      '' (\<lambda>opts. Inr [Create ''my-project''])
     example_env_none [''my-project'', ''--dry-run'', ''--list-actions''] = Inl (SystemExit 2)"
proof -
  let ?one = "[''my-project'', ''--pretend'']"
  let ?both = "[''my-project'', ''--dry-run'', ''--list-actions'']"
  let ?run = "\<lambda>opts :: string \<rightharpoonup> py_value. Inr [Create ''my-project''] :: error + effect list"
  note c8 = pretend_and_list_actions_are_exclusive
  have pretend: "opt_value ''pretend'' (parse_args example_env_none ?one) = Inr (Some (PyBool True))"
    by code_simp
  then obtain opts where ok: "parse_args example_env_none ?one = Inr opts"
    and p: "opts ''pretend'' = Some (PyBool True)"
    by (cases "parse_args example_env_none ?one") (auto simp: opt_value_def)
  from c8 [of example_env_none ?one example_plan id "''      ''" ?run,
      THEN conjunct1, rule_format, OF ok] p
  have "opts ''command'' \<noteq> Some (PyFunc List_actions)" by blast
  with ok have command:
    "opt_value ''command'' (parse_args example_env_none ?one) \<noteq> Inr (Some (PyFunc List_actions))"
    by (simp add: opt_value_def)
  have toks: "read_args_from_files (recursion_limit example_env_none) example_env_none
                (with_profile example_env_none ?both) = Inr ?both"
    by code_simp
  have flags: "(''--pretend'' \<in> set (takeWhile (\<lambda>t. t \<noteq> ''--'') ?both) \<or>
                ''--dry-run'' \<in> set (takeWhile (\<lambda>t. t \<noteq> ''--'') ?both)) \<and>
               ''--list-actions'' \<in> set (takeWhile (\<lambda>t. t \<noteq> ''--'') ?both)"
    by simp
  from c8 [of example_env_none ?both example_plan id "''      ''" ?run,
      THEN conjunct2, rule_format, OF conjI [OF toks flags]]
  obtain e where e: "parse_args example_env_none ?both = Inl e"
    and m: "main example_plan id ''      '' ?run example_env_none ?both = Inl e"
    by blast
  have "opt_value ''command'' (parse_args example_env_none ?both) = Inl (SystemExit 2)"
    by code_simp
  with e have "e = SystemExit 2" by (simp add: opt_value_def)
  with m pretend command show ?thesis by simp
qed

section \<open>The profile arguments and the explicit arguments\<close>

text \<open>
  Every entry of the history for an action with option strings comes from the option
  string at its index, with the argument strings that follow that index, and every
  option string that the run has passed has its entries in the history.
\<close>

lemma take_action_entry:
  assumes "take_action p j st (a, strs, os) = Inr st'"
  shows "\<exists>w. get_values a strs = Inr w \<and> taken st' = taken st @ [(j, a, w)] \<and>
             positionals st' = positionals st"
  using take_action_Inr [OF assms] by auto

lemma take_actions_entries:
  "take_actions p j st tups = Inr st' \<Longrightarrow>
   positionals st' = positionals st \<and> set (taken st) \<subseteq> set (taken st') \<and>
   (\<forall>t \<in> set tups. \<exists>w. get_values (fst t) (fst (snd t)) = Inr w \<and>
                        (j, fst t, w) \<in> set (taken st')) \<and>
   (\<forall>e \<in> set (taken st'). e \<in> set (taken st) \<or>
      (\<exists>t \<in> set tups. fst e = j \<and> fst (snd e) = fst t \<and>
                       get_values (fst t) (fst (snd t)) = Inr (snd (snd e))))"
proof (induction tups arbitrary: st)
  case Nil
  then show ?case by simp
next
  case (Cons t tups)
  obtain a strs os where t: "t = (a, strs, os)" by (cases t)
  from Cons.prems obtain st1 where
    one: "take_action p j st (a, strs, os) = Inr st1" and rest: "take_actions p j st1 tups = Inr st'"
    by (auto simp: t split: sum.splits)
  from take_action_entry [OF one] obtain w where
    w: "get_values a strs = Inr w" and tk: "taken st1 = taken st @ [(j, a, w)]"
    and ps: "positionals st1 = positionals st"
    by blast
  note IH = Cons.IH [OF rest]
  have 1: "positionals st' = positionals st" using IH ps by simp
  have 2: "set (taken st) \<subseteq> set (taken st')" using IH tk by auto
  have 3: "\<exists>w. get_values (fst u) (fst (snd u)) = Inr w \<and> (j, fst u, w) \<in> set (taken st')"
    if "u \<in> set (t # tups)" for u
  proof (cases "u = t")
    case True
    have "(j, a, w) \<in> set (taken st')" using IH tk by auto
    with w True t show ?thesis by auto
  next
    case False
    with that have "u \<in> set tups" by simp
    with IH show ?thesis by blast
  qed
  have 4: "e \<in> set (taken st) \<or>
      (\<exists>u \<in> set (t # tups). fst e = j \<and> fst (snd e) = fst u \<and>
                       get_values (fst u) (fst (snd u)) = Inr (snd (snd e)))"
    if e: "e \<in> set (taken st')" for e
  proof -
    from IH e have "e \<in> set (taken st1) \<or>
      (\<exists>u \<in> set tups. fst e = j \<and> fst (snd e) = fst u \<and>
                       get_values (fst u) (fst (snd u)) = Inr (snd (snd e)))"
      by blast
    then show ?thesis
    proof
      assume "e \<in> set (taken st1)"
      then have "e \<in> set (taken st) \<or> e = (j, a, w)" by (auto simp: tk)
      then show ?thesis using w t by auto
    next
      assume "\<exists>u \<in> set tups. fst e = j \<and> fst (snd e) = fst u \<and>
                       get_values (fst u) (fst (snd u)) = Inr (snd (snd e))"
      then show ?thesis by auto
    qed
  qed
  from 1 2 3 4 show ?case by blast
qed

lemma take_positionals_entries:
  "take_positionals p args j st zs = Inr (k, st') \<Longrightarrow>
   set (taken st) \<subseteq> set (taken st') \<and>
   (\<forall>e \<in> set (taken st'). e \<in> set (taken st) \<or> fst (snd e) \<in> fst ` set zs)"
proof (induction zs arbitrary: j st)
  case Nil
  then show ?case by simp
next
  case (Cons z zs)
  obtain a n where z: "z = (a, n)" by (cases z)
  from Cons.prems obtain st1 where
    one: "take_action p j st (a, take n (drop j args), None) = Inr st1"
    and rest: "take_positionals p args (j + n) st1 zs = Inr (k, st')"
    by (auto simp: z split: sum.splits)
  from take_action_entry [OF one] obtain w where
    tk: "taken st1 = taken st @ [(j, a, w)]"
    by blast
  note IH = Cons.IH [OF rest]
  have 1: "set (taken st) \<subseteq> set (taken st')" using IH tk by auto
  have 2: "e \<in> set (taken st) \<or> fst (snd e) \<in> fst ` set (z # zs)"
    if e: "e \<in> set (taken st')" for e
  proof -
    from IH e have "e \<in> set (taken st1) \<or> fst (snd e) \<in> fst ` set zs" by blast
    then show ?thesis
    proof
      assume "e \<in> set (taken st1)"
      then have "e \<in> set (taken st) \<or> e = (j, a, w)" by (auto simp: tk)
      then show ?thesis using z by auto
    next
      assume "fst (snd e) \<in> fst ` set zs"
      then show ?thesis by simp
    qed
  qed
  from 1 2 show ?case by blast
qed

lemma consume_positionals_entries:
  assumes "consume_positionals p args pat j st = Inr (k, st')"
  shows "set (taken st) \<subseteq> set (taken st')"
    and "\<forall>e \<in> set (taken st'). e \<in> set (taken st) \<or> fst (snd e) \<in> set (positionals st)"
    and "set (positionals st') \<subseteq> set (positionals st)"
proof -
  from assms obtain st1 counts where
    tp: "take_positionals p args j st (zip (positionals st) counts) = Inr (k, st1)"
    and st': "st' = st1 \<lparr> positionals := drop (length counts) (positionals st1) \<rparr>"
    by (auto simp: consume_positionals_def Let_def split: sum.splits)
  note e = take_positionals_entries [OF tp]
  show "set (taken st) \<subseteq> set (taken st')" using e by (simp add: st')
  have "fst ` set (zip (positionals st) counts) \<subseteq> set (positionals st)"
    by (auto dest: set_zip_leftD)
  with e have "\<forall>e \<in> set (taken st1). e \<in> set (taken st) \<or> fst (snd e) \<in> set (positionals st)"
    by blast
  then show "\<forall>e \<in> set (taken st'). e \<in> set (taken st) \<or> fst (snd e) \<in> set (positionals st)"
    unfolding st' by simp
  have "positionals st1 = positionals st" using tp by (rule take_positionals_positionals)
  then show "set (positionals st') \<subseteq> set (positionals st)"
    unfolding st' by (simp add: set_drop_subset)
qed

lemma justified_positionals:
  assumes j: "justified p args parts st"
    and c: "consume_positionals p args pat i st = Inr (k, st')"
  shows "justified p args parts st'"
  unfolding justified_def
proof (intro conjI ballI impI)
  note e = consume_positionals_entries [OF c]
  fix a
  assume "a \<in> set (positionals st')"
  with e(3) j show "option_strings a = []" unfolding justified_def by blast
next
  note e = consume_positionals_entries [OF c]
  fix x
  assume x: "x \<in> set (taken st')" and o: "option_strings (fst (snd x)) \<noteq> []"
  from e(2) x have "x \<in> set (taken st) \<or> fst (snd x) \<in> set (positionals st)" by blast
  then show "option_entry p args parts (fst x) (fst (snd x)) (snd (snd x))"
  proof
    assume "x \<in> set (taken st)"
    with j o show ?thesis unfolding justified_def by blast
  next
    assume "fst (snd x) \<in> set (positionals st)"
    with j o show ?thesis unfolding justified_def by blast
  qed
qed

lemma justified_extras: "justified p args parts (st \<lparr> extras := e \<rparr>) = justified p args parts st"
  by (simp add: justified_def)

lemma recorded_extras: "recorded p args parts n (st \<lparr> extras := e \<rparr>) = recorded p args parts n st"
  by (simp add: recorded_def)

lemma recorded_mono:
  assumes "recorded p args parts n st" "set (taken st) \<subseteq> set (taken st')"
  shows "recorded p args parts n st'"
  unfolding recorded_def
proof (intro allI impI)
  fix k a0 os sep ea
  assume "k < n" "k < length parts" "snd (parts ! k) = Some (Some a0, os, sep, ea)"
  with assms(1) obtain tups ex stop where
    ol: "option_loop p args (map fst parts) k a0 os sep ea [] = Inr (tups, ex, stop)"
    and en: "\<forall>t \<in> set tups. \<exists>w. get_values (fst t) (fst (snd t)) = Inr w \<and>
                                (k, fst t, w) \<in> set (taken st)"
    unfolding recorded_def by blast
  from en assms(2) have "\<forall>t \<in> set tups. \<exists>w. get_values (fst t) (fst (snd t)) = Inr w \<and>
                                (k, fst t, w) \<in> set (taken st')"
    by blast
  with ol show "\<exists>tups ex stop.
           option_loop p args (map fst parts) k a0 os sep ea [] = Inr (tups, ex, stop) \<and>
           (\<forall>t \<in> set tups. \<exists>w. get_values (fst t) (fst (snd t)) = Inr w \<and>
                                (k, fst t, w) \<in> set (taken st'))"
    by blast
qed

lemma recorded_none:
  assumes r: "recorded p args parts i st"
    and no: "\<And>k. i \<le> k \<Longrightarrow> k < j \<Longrightarrow> k < length parts \<Longrightarrow> snd (parts ! k) = None"
  shows "recorded p args parts j st"
  unfolding recorded_def
proof (intro allI impI)
  fix k a0 os sep ea
  assume k: "k < j" "k < length parts" and s: "snd (parts ! k) = Some (Some a0, os, sep, ea)"
  have "k < i"
  proof (rule ccontr)
    assume "\<not> k < i"
    with no [of k] k s show False by simp
  qed
  with r k s show "\<exists>tups ex stop.
           option_loop p args (map fst parts) k a0 os sep ea [] = Inr (tups, ex, stop) \<and>
           (\<forall>t \<in> set tups. \<exists>w. get_values (fst t) (fst (snd t)) = Inr w \<and>
                                (k, fst t, w) \<in> set (taken st))"
    unfolding recorded_def by blast
qed

lemma no_option_None:
  assumes sh: "parts_shape parts" and no: "no_option (drop i (map fst parts)) n"
    and k: "i \<le> k" "k < i + n" "k < length parts"
  shows "snd (parts ! k) = None"
proof -
  have "k - i < n" using k by simp
  moreover have "k - i < length (drop i (map fst parts))" using k by simp
  ultimately have "take n (drop i (map fst parts)) ! (k - i) = fst (parts ! k)"
    using k by simp
  moreover have "k - i < length (take n (drop i (map fst parts)))"
    using k no by (simp add: no_option_def)
  ultimately have "fst (parts ! k) \<in> set (take n (drop i (map fst parts)))"
    by (metis nth_mem)
  with no have "fst (parts ! k) \<noteq> CHR ''O''"
    by (auto simp: no_option_def list_all_iff)
  moreover have "parts ! k \<in> set parts" using k by simp
  ultimately show ?thesis
    using sh by (cases "snd (parts ! k)") (auto simp: parts_shape_def list_all_iff)
qed

lemma recorded_skip:
  assumes r: "recorded p args parts i st" and sh: "parts_shape parts" and ij: "i \<le> j"
    and no: "no_option (drop i (map fst parts)) (j - i)"
  shows "recorded p args parts j st"
  using r
proof (rule recorded_none)
  fix k
  assume "i \<le> k" "k < j" "k < length parts"
  with sh no ij show "snd (parts ! k) = None"
    by (intro no_option_None [of parts i "j - i" k]) simp_all
qed


lemma recorded_Suc:
  assumes r: "recorded p args parts i st"
    and here: "\<And>a0 os sep ea. snd (parts ! i) = Some (Some a0, os, sep, ea) \<Longrightarrow>
      \<exists>tups ex stop.
         option_loop p args (map fst parts) i a0 os sep ea [] = Inr (tups, ex, stop) \<and>
         (\<forall>t \<in> set tups. \<exists>w. get_values (fst t) (fst (snd t)) = Inr w \<and>
                              (i, fst t, w) \<in> set (taken st))"
  shows "recorded p args parts (Suc i) st"
  unfolding recorded_def
proof (intro allI impI)
  fix k a0 os sep ea
  assume k: "k < Suc i" "k < length parts" and s: "snd (parts ! k) = Some (Some a0, os, sep, ea)"
  show "\<exists>tups ex stop.
           option_loop p args (map fst parts) k a0 os sep ea [] = Inr (tups, ex, stop) \<and>
           (\<forall>t \<in> set tups. \<exists>w. get_values (fst t) (fst (snd t)) = Inr w \<and>
                                (k, fst t, w) \<in> set (taken st))"
  proof (cases "k = i")
    case True
    with here [of a0 os sep ea] s show ?thesis by simp
  next
    case False
    with k have "k < i" by simp
    with r k s show ?thesis unfolding recorded_def by blast
  qed
qed

lemma consume_optional_recorded:
  assumes r: "recorded p args parts i st" and j: "justified p args parts st"
    and i: "i < length parts" and sh: "parts_shape parts"
    and co: "consume_optional p args parts i st = Inr (n, st')"
  shows "recorded p args parts n st' \<and> justified p args parts st'"
proof (cases "snd (parts ! i)")
  case None
  with co show ?thesis by (simp add: consume_optional_def)
next
  case (Some t)
  obtain ao os sep ea where t: "t = (ao, os, sep, ea)" by (cases t)
  have sp: "snd (parts ! i) = Some (ao, os, sep, ea)" using Some t by simp
  show ?thesis
  proof (cases ao)
    case None
    have "Inr (i + 1, st \<lparr> extras := extras st @ [args ! i] \<rparr>) = Inr (n, st')"
      using co unfolding consume_optional_def sp None by simp
    then have res: "n = Suc i" "st' = st \<lparr> extras := extras st @ [args ! i] \<rparr>"
      by simp_all
    have "recorded p args parts (Suc i) st"
      using r by (rule recorded_Suc) (simp add: sp None)
    with j show ?thesis by (simp add: res recorded_extras justified_extras)
  next
    case (Some a)
    have c': "(case option_loop p args (map fst parts) i a os sep ea [] of
                 Inl e \<Rightarrow> Inl e
               | Inr (action_tuples, new_extras, stop) \<Rightarrow>
                   (case take_actions p i (st \<lparr> extras := extras st @ new_extras \<rparr>)
                           action_tuples of
                      Inl e \<Rightarrow> Inl e
                    | Inr st' \<Rightarrow> Inr (stop, st'))) = Inr (n, st')"
      using co unfolding consume_optional_def sp Some by simp
    then obtain tups ex where
      ol: "option_loop p args (map fst parts) i a os sep ea [] = Inr (tups, ex, n)"
      and ta: "take_actions p i (st \<lparr> extras := extras st @ ex \<rparr>) tups = Inr st'"
      by (cases "option_loop p args (map fst parts) i a os sep ea []")
         (auto split: sum.splits)
    from take_actions_entries [OF ta]
    have ps: "positionals st' = positionals st"
      and sub: "set (taken st) \<subseteq> set (taken st')"
      and all: "\<forall>t \<in> set tups. \<exists>w. get_values (fst t) (fst (snd t)) = Inr w \<and>
                        (i, fst t, w) \<in> set (taken st')"
      and new: "\<forall>e \<in> set (taken st'). e \<in> set (taken st) \<or>
        (\<exists>t \<in> set tups. fst e = i \<and> fst (snd e) = fst t \<and>
                       get_values (fst t) (fst (snd t)) = Inr (snd (snd e)))"
      by simp_all
    from option_loop_region [OF ol]
    have ij: "i < n" and no: "no_option (drop (Suc i) (map fst parts)) (n - Suc i)"
      by simp_all
    have "recorded p args parts i st'" using r sub by (rule recorded_mono)
    then have "recorded p args parts (Suc i) st'"
    proof (rule recorded_Suc)
      fix a0 os0 sep0 ea0
      assume "snd (parts ! i) = Some (Some a0, os0, sep0, ea0)"
      with sp Some have "a0 = a" "os0 = os" "sep0 = sep" "ea0 = ea" by simp_all
      with ol all show "\<exists>tups ex stop.
         option_loop p args (map fst parts) i a0 os0 sep0 ea0 [] = Inr (tups, ex, stop) \<and>
         (\<forall>t \<in> set tups. \<exists>w. get_values (fst t) (fst (snd t)) = Inr w \<and>
                              (i, fst t, w) \<in> set (taken st'))"
        by blast
    qed
    then have rec: "recorded p args parts n st'"
      using sh by (rule recorded_skip) (use ij no in simp_all)
    have "justified p args parts st'"
      unfolding justified_def
    proof (intro conjI ballI impI)
      fix b
      assume "b \<in> set (positionals st')"
      with ps j show "option_strings b = []" unfolding justified_def by simp
    next
      fix x
      assume x: "x \<in> set (taken st')" and o: "option_strings (fst (snd x)) \<noteq> []"
      from new x have "x \<in> set (taken st) \<or>
        (\<exists>t \<in> set tups. fst x = i \<and> fst (snd x) = fst t \<and>
                       get_values (fst t) (fst (snd t)) = Inr (snd (snd x)))"
        by blast
      then show "option_entry p args parts (fst x) (fst (snd x)) (snd (snd x))"
      proof
        assume "x \<in> set (taken st)"
        with j o show ?thesis unfolding justified_def by blast
      next
        assume "\<exists>t \<in> set tups. fst x = i \<and> fst (snd x) = fst t \<and>
                       get_values (fst t) (fst (snd t)) = Inr (snd (snd x))"
        then obtain t where t: "t \<in> set tups" "fst x = i" "fst (snd x) = fst t"
          "get_values (fst t) (fst (snd t)) = Inr (snd (snd x))"
          by blast
        have "(fst t, fst (snd t), snd (snd t)) \<in> set tups" using t(1) by simp
        with i sp Some ol t(4) have "option_entry p args parts i (fst t) (snd (snd x))"
          unfolding option_entry_def by blast
        with t(2,3) show ?thesis by simp
      qed
    qed
    with rec show ?thesis by simp
  qed
qed

lemma loop_body_recorded:
  assumes r: "recorded p args parts i st" and j: "justified p args parts st"
    and sh: "parts_shape parts"
    and lc: "loop_condition parts i"
    and b: "loop_body p args parts i st = Inr (n, st')"
  shows "recorded p args parts n st' \<and> justified p args parts st'"
proof -
  let ?n = "next_option_string_index parts i"
  note nx = next_option_string_index_props [OF lc]
  have n_len: "?n < length parts"
    using nx(2) by (simp add: option_string_indices_iff)
  show ?thesis
  proof (cases "i = ?n")
    case True
    with b nx(2) have "consume_optional p args parts i st = Inr (n, st')"
      by (simp add: loop_body_def Let_def)
    with r j sh n_len True show ?thesis
      by (intro consume_optional_recorded [of p args parts i st n st']) simp_all
  next
    case False
    with b obtain pe st1 where
      cp: "consume_positionals p args (map fst parts) i st = Inr (pe, st1)"
      and rest: "(if pe > i then Inr (pe, st1)
                  else if pe \<notin> set (option_string_indices parts)
                  then consume_optional p args parts ?n
                         (st1 \<lparr> extras := extras st1 @ take (?n - pe) (drop pe args) \<rparr>)
                  else consume_optional p args parts pe st1) = Inr (n, st')"
      by (auto simp: loop_body_def Let_def split: sum.splits)
    from consume_positionals_region [OF cp]
    have ipe: "i \<le> pe" and no: "no_option (drop i (map fst parts)) (pe - i)"
      by simp_all
    have j1: "justified p args parts st1"
      using j cp by (rule justified_positionals)
    have "recorded p args parts i st1"
      using r consume_positionals_entries(1) [OF cp] by (rule recorded_mono)
    then have r1: "recorded p args parts pe st1"
      using sh ipe no by (rule recorded_skip)
    show ?thesis
    proof (cases "pe > i")
      case True
      with rest r1 j1 show ?thesis by simp
    next
      case False
      with ipe have pe: "pe = i" by simp
      show ?thesis
      proof (cases "pe \<in> set (option_string_indices parts)")
        case True
        with rest pe have "consume_optional p args parts pe st1 = Inr (n, st')"
          by simp
        moreover have "pe < length parts"
          using True by (simp add: option_string_indices_iff)
        ultimately show ?thesis
          using r1 j1 sh by (intro consume_optional_recorded [of p args parts pe st1 n st'])
      next
        case False
        let ?st = "st1 \<lparr> extras := extras st1 @ take (?n - pe) (drop pe args) \<rparr>"
        from False rest pe
        have co: "consume_optional p args parts ?n ?st = Inr (n, st')"
          by simp
        have "recorded p args parts ?n st1"
          using r1
        proof (rule recorded_none)
          fix k
          assume k: "pe \<le> k" "k < ?n" "k < length parts"
          show "snd (parts ! k) = None"
          proof (rule ccontr)
            assume "snd (parts ! k) \<noteq> None"
            with k have "k \<in> set (option_string_indices parts)"
              by (simp add: option_string_indices_iff)
            with nx(3) k pe show False by auto
          qed
        qed
        then have "recorded p args parts ?n ?st" by (simp add: recorded_extras)
        moreover have "justified p args parts ?st" using j1 by (simp add: justified_extras)
        ultimately show ?thesis
          using n_len sh co by (rule consume_optional_recorded)
      qed
    qed
  qed
qed

lemma main_loop_recorded:
  "recorded p args parts i st \<Longrightarrow> justified p args parts st \<Longrightarrow> parts_shape parts \<Longrightarrow>
   main_loop p args parts i st = Inr (n, st') \<Longrightarrow>
   recorded p args parts n st' \<and> justified p args parts st' \<and> \<not> loop_condition parts n"
proof (induction p args parts i st rule: main_loop.induct)
  case (1 p args parts i st)
  note eq = "1.prems"(4) [unfolded main_loop.simps [of p args parts i st]]
  show ?case
  proof (cases "loop_condition parts i")
    case False
    with eq "1.prems"(1,2) show ?thesis by simp
  next
    case True
    with eq obtain i' st1 where
      b: "loop_body p args parts i st = Inr (i', st1)" and adv: "i' > i"
      and rec: "main_loop p args parts i' st1 = Inr (n, st')"
      by (auto split: sum.splits if_splits)
    have "recorded p args parts i' st1 \<and> justified p args parts st1"
      using "1.prems"(1,2,3) True b by (rule loop_body_recorded)
    then have r: "recorded p args parts i' st1" and j: "justified p args parts st1"
      by simp_all
    from "1.IH" [OF True b refl adv r j "1.prems"(3) rec] show ?thesis .
  qed
qed

lemma run_parser_recorded:
  assumes run: "run_parser p args = Inr st" and cl: "classify p args = Inr parts"
  shows "recorded p args parts (length parts) st \<and> justified p args parts st"
proof -
  from run cl obtain i st1 k st2 where
    ml: "main_loop p args parts 0 (initial_state p) = Inr (i, st1)"
    and cp: "consume_positionals p args (map fst parts) i st1 = Inr (k, st2)"
    and st: "st = st2 \<lparr> extras := extras st2 @ drop k args \<rparr>"
    by (auto simp: run_parser_def split: sum.splits if_splits)
  have sh: "parts_shape parts" using classify_shape [OF cl] by simp
  have r0: "recorded p args parts 0 (initial_state p)"
    by (simp add: recorded_def)
  have j0: "justified p args parts (initial_state p)"
    by (simp add: justified_def initial_state_def)
  from main_loop_recorded [OF r0 j0 sh ml]
  have r1: "recorded p args parts i st1" and j1: "justified p args parts st1"
    and lc: "\<not> loop_condition parts i"
    by simp_all
  have "recorded p args parts (length parts) st1"
    using r1
  proof (rule recorded_none)
    fix k
    assume k: "i \<le> k" "k < length parts"
    show "snd (parts ! k) = None"
    proof (rule ccontr)
      assume "snd (parts ! k) \<noteq> None"
      with k have in_set: "k \<in> set (option_string_indices parts)"
        by (simp add: option_string_indices_iff)
      then have "k \<le> Max (set (option_string_indices parts))"
        by (intro Max_ge) simp_all
      with in_set k lc show False
        unfolding loop_condition_def by (metis empty_iff empty_set le_trans)
    qed
  qed
  then have "recorded p args parts (length parts) st2"
    using consume_positionals_entries(1) [OF cp] by (rule recorded_mono)
  moreover have "justified p args parts st2"
    using j1 cp by (rule justified_positionals)
  ultimately show ?thesis
    unfolding st by (simp add: recorded_extras justified_extras)
qed


lemma classify_nth:
  "classify p toks = Inr parts \<Longrightarrow> k < length toks \<Longrightarrow> ''--'' \<notin> set (take k toks) \<Longrightarrow>
   (if toks ! k = ''--'' then fst (parts ! k) = CHR ''-''
    else parse_optional p (toks ! k) = Inr (snd (parts ! k)))"
proof (induction toks arbitrary: parts k)
  case Nil
  then show ?case by simp
next
  case (Cons s toks)
  show ?case
  proof (cases "s = ''--''")
    case True
    with Cons.prems have "k = 0" by (cases k) auto
    with True Cons.prems(1) show ?thesis by auto
  next
    case False
    with Cons.prems(1) obtain u rest where
      u: "parse_optional p s = Inr u" and rest: "classify p toks = Inr rest"
      and parts: "parts = (if u = None then CHR ''A'' else CHR ''O'', u) # rest"
      by (auto split: sum.splits)
    show ?thesis
    proof (cases k)
      case 0
      with False u show ?thesis by (simp add: parts)
    next
      case (Suc n)
      with Cons.prems have "n < length toks" "''--'' \<notin> set (take n toks)" by simp_all
      from Cons.IH [OF rest this] show ?thesis by (simp add: parts Suc)
    qed
  qed
qed

lemma cli_option_string:
  assumes "map_of (option_string_actions (cli_parser env)) s = Some a"
  shows "s \<noteq> []" and "hd s = CHR ''-''" and "s \<noteq> ''--''" and "option_strings a \<noteq> []"
    and "a \<in> set (actions (cli_parser env))" and "kind a = Store \<Longrightarrow> nargs a = None"
proof -
  from assms have "(s, a) \<in> set (option_string_actions (cli_parser env))"
    by (rule map_of_SomeD)
  then have cases: "(s, a) \<in> set
     [(''-h'', help_action), (''--help'', help_action),
      (''-p'', package_action), (''--package'', package_action),
      (''-d'', description_action), (''--description'', description_action),
      (''-u'', url_action), (''--url'', url_action),
      (''-l'', license_action env), (''--license'', license_action env),
      (''-f'', force_action), (''--force'', force_action),
      (''-U'', update_action), (''--update'', update_action),
      (''--pretend'', pretend_action), (''--dry-run'', pretend_action),
      (''--list-actions'', list_actions_action),
      (''-v'', version_action), (''--version'', version_action),
      (''-q'', quiet_action), (''--quiet'', quiet_action)]"
    unfolding cli_parser_option_string_actions .
  then show "s \<noteq> []" by auto
  from cases show "hd s = CHR ''-''" by auto
  from cases show "s \<noteq> ''--''" by auto
  from cases show "option_strings a \<noteq> []"
    by (auto simp: help_action_def package_action_def description_action_def
      url_action_def license_action_def force_action_def update_action_def pretend_action_def
      list_actions_action_def version_action_def quiet_action_def)
  from cases show "a \<in> set (actions (cli_parser env))"
    unfolding cli_parser_actions by auto
  from cases show "nargs a = None" if "kind a = Store"
    using that
    by (auto simp: help_action_def package_action_def description_action_def
      url_action_def license_action_def force_action_def update_action_def pretend_action_def
      list_actions_action_def version_action_def quiet_action_def)
qed

lemma parse_optional_exact:
  assumes "map_of (option_string_actions p) s = Some a" "s \<noteq> []" "hd s = CHR ''-''"
  shows "parse_optional p s = Inr (Some (Some a, s, None, None))"
  using assms by (simp add: parse_optional_def prefix_chars_def)

lemma parse_optional_plain:
  assumes "s = [] \<or> hd s \<noteq> CHR ''-''"
  shows "parse_optional p s = Inr None"
  using assms by (auto simp: parse_optional_def prefix_chars_def)

lemma option_loop_plain:
  assumes "option_loop p args pat i a os None None [] = Inr (tups, ex, stop)"
  shows "\<exists>cnt. match_nargs_pattern a (drop (i + 1) pat) = Some cnt \<and>
               tups = [(a, take cnt (drop (i + 1) args), Some os)]"
  using assms unfolding option_loop.simps [of p args pat i a os None None "[]"]
  by (auto split: option.splits)

lemma match_one_argument:
  assumes "match_nargs_pattern a pat = Some cnt" "option_strings a \<noteq> []" "nargs a = None"
  shows "cnt = 1 \<and> pat \<noteq> [] \<and> hd pat = CHR ''A''"
  using assms
  by (cases pat) (auto simp: match_nargs_pattern_def nargs_count_def split: if_splits)

lemma get_values_one:
  assumes "get_values a [v] = Inr w" "nargs a = None" "option_strings a \<noteq> []"
  shows "w = PyStr v"
  using assms by (auto simp: get_values_def Let_def split: if_splits)

lemma explicit_option_decides:
  assumes run: "run_parser (cli_parser env) (front @ [s, v] @ post) = Inr st"
    and inv: "run_inv (cli_parser env) j st"
    and m: "map_of (option_string_actions (cli_parser env)) s = Some a"
    and kd: "kind a = Store"
    and nd: "''--'' \<notin> set front"
    and later: "\<forall>t \<in> set post. t \<noteq> [] \<and> hd t = CHR ''-'' \<longrightarrow>
                 (\<exists>b. map_of (option_string_actions (cli_parser env)) t = Some b \<and> b \<noteq> a)"
  shows "namespace st (dest a) = Some (PyStr v)"
proof -
  let ?p = "cli_parser env"
  let ?toks = "front @ [s, v] @ post"
  let ?i = "length front"
  note sa = cli_option_string [OF m]
  have na: "nargs a = None" using sa(6) kd by simp
  from run obtain parts where cl: "classify ?p ?toks = Inr parts"
    by (auto simp: run_parser_def split: sum.splits)
  have sh: "parts_shape parts" and len: "length parts = length ?toks"
    using classify_shape [OF cl] by simp_all
  from run_parser_recorded [OF run cl]
  have rec: "recorded ?p ?toks parts (length parts) st" and just: "justified ?p ?toks parts st"
    by simp_all
  have i_len: "?i < length parts" "Suc ?i < length parts" using len by simp_all
  have tok_i: "?toks ! ?i = s" by simp
  have tok_v: "?toks ! Suc ?i = v" by (simp add: nth_append)
  have "parse_optional ?p (?toks ! ?i) = Inr (snd (parts ! ?i))"
    using classify_nth [OF cl, of ?i] nd sa(3) by simp
  then have part_i: "snd (parts ! ?i) = Some (Some a, s, None, None)"
    using parse_optional_exact [OF m sa(1,2)] by simp
  from rec i_len(1) part_i obtain tups ex stop where
    ol: "option_loop ?p ?toks (map fst parts) ?i a s None None [] = Inr (tups, ex, stop)"
    and en: "\<forall>t \<in> set tups. \<exists>w. get_values (fst t) (fst (snd t)) = Inr w \<and>
                                (?i, fst t, w) \<in> set (taken st)"
    unfolding recorded_def by blast
  from option_loop_plain [OF ol] obtain cnt where
    cnt: "match_nargs_pattern a (drop (?i + 1) (map fst parts)) = Some cnt"
    and tups: "tups = [(a, take cnt (drop (?i + 1) ?toks), Some s)]"
    by blast
  from match_one_argument [OF cnt sa(4) na]
  have one: "cnt = 1" and pat: "hd (drop (?i + 1) (map fst parts)) = CHR ''A''"
    by simp_all
  have tups': "tups = [(a, [v], Some s)]"
    unfolding tups one by simp
  have letter: "fst (parts ! Suc ?i) = CHR ''A''"
    using pat i_len(2) by (simp add: hd_drop_conv_nth)
  have part_v: "snd (parts ! Suc ?i) = None"
  proof -
    have "parts ! Suc ?i \<in> set parts" using i_len(2) by simp
    with sh letter show ?thesis
      by (cases "snd (parts ! Suc ?i)") (auto simp: parts_shape_def list_all_iff)
  qed
  have v: "v \<noteq> ''--''"
  proof
    assume "v = ''--''"
    moreover have "''--'' \<notin> set (take (Suc ?i) ?toks)" using nd sa(3) by simp
    ultimately have "fst (parts ! Suc ?i) = CHR ''-''"
      using classify_nth [OF cl, of "Suc ?i"] tok_v len i_len(2) by simp
    with letter show False by simp
  qed
  have post: "''--'' \<notin> set post"
  proof
    assume "''--'' \<in> set post"
    with later obtain b where "map_of (option_string_actions ?p) ''--'' = Some b" by force
    from cli_option_string(3) [OF this] show False by simp
  qed
  have no_dashes: "''--'' \<notin> set ?toks" using nd sa(3) v post by simp
  from en tups' obtain w0 where "(?i, a, w0) \<in> set (taken st)" by auto
  from last_entry_wins [OF inv this] obtain k w where
    kw: "(k, a, w) \<in> set (taken st)" "?i \<le> k" "namespace st (dest a) = Some (stored a w)"
    by blast
  from just kw(1) sa(4) have "option_entry ?p ?toks parts k a w"
    unfolding justified_def by force
  then obtain a0 os sep ea tups2 ex2 stop2 strs os' where
    k_len: "k < length parts"
    and part_k: "snd (parts ! k) = Some (Some a0, os, sep, ea)"
    and ol2: "option_loop ?p ?toks (map fst parts) k a0 os sep ea [] = Inr (tups2, ex2, stop2)"
    and mem: "(a, strs, os') \<in> set tups2" and gv: "get_values a strs = Inr w"
    unfolding option_entry_def by blast
  have "k = ?i"
  proof (rule ccontr)
    assume "k \<noteq> ?i"
    with kw(2) part_k part_v have k2: "Suc (Suc ?i) \<le> k"
      by (cases "k = Suc ?i") auto
    let ?t = "?toks ! k"
    have t_post: "?t \<in> set post"
    proof -
      have "?toks ! k = post ! (k - Suc (Suc ?i))"
        using k2 by (simp add: nth_append nth_Cons')
      moreover have "k - Suc (Suc ?i) < length post" using k_len len k2 by simp
      ultimately show ?thesis by simp
    qed
    have "''--'' \<notin> set (take k ?toks)"
      using no_dashes by (meson in_set_takeD)
    moreover have "?t \<noteq> ''--''" using t_post post by auto
    ultimately have po: "parse_optional ?p ?t = Inr (Some (Some a0, os, sep, ea))"
      using classify_nth [OF cl, of k] k_len len part_k by simp
    show False
    proof (cases "?t \<noteq> [] \<and> hd ?t = CHR ''-''")
      case False
      then have "parse_optional ?p ?t = Inr None"
        by (intro parse_optional_plain) auto
      with po show False by simp
    next
      case True
      with later t_post obtain b where
        b: "map_of (option_string_actions ?p) ?t = Some b" "b \<noteq> a"
        by blast
      from parse_optional_exact [OF b(1)] True po
      have "a0 = b" "sep = None" "ea = None" by simp_all
      with ol2 have "option_loop ?p ?toks (map fst parts) k b os None None [] =
                       Inr (tups2, ex2, stop2)"
        by simp
      from option_loop_plain [OF this] mem b(2) show False by auto
    qed
  qed
  with part_k part_i ol2 ol have "tups2 = tups" by simp
  with mem tups' have "strs = [v]" by simp
  with gv na sa(4) have "w = PyStr v" by (simp add: get_values_one)
  with kw(3) kd show ?thesis by (simp add: stored_def)
qed

lemma config_dir_example_env_profile:
  "get_config_dir example_env_profile = ''/home/user/.config/pyscaffold''"
  by (simp add: get_config_dir_def candidates_def example_env_profile_def example_env_def
      example_environ_def OSX_CONFIG_def WIN_CONFIG_def XDG_CONFIG_def UNIX_CONFIG_def
      is_word_char_def after_brace_def os_path_join_def os_sep_def)

text \<open>
  Claim C1. The file of the profile is \<open>name.args\<close> in the configuration directory, where
  \<open>name\<close> is the value of the profile variable, or \<open>default\<close> when the variable is unset or
  empty. When the variable is not \<open>none\<close> and that file exists, \<open>parse_args\<close> puts one
  reference to it in front of the explicit arguments, which stay as they are behind it.
  Whenever \<open>parse_args\<close> then returns, the argument strings that were parsed are the
  tokens of the profile followed by the expanded explicit arguments, and an option that
  stores a value and that the explicit arguments give as an option string \<open>s\<close> followed by
  a string \<open>v\<close> has the value \<open>v\<close> in the returned options, whatever the profile gave:
  this for \<open>s\<close> and \<open>v\<close> not after a \<open>--\<close>, and when every later string that starts with a
  dash is an option string of another action.
\<close>

theorem profile_arguments_come_first:
  "name = (case environ env ''PYSCAFFOLD_PROFILE'' of
             None \<Rightarrow> ''default''
           | Some profile \<Rightarrow> if profile = [] then ''default'' else profile) \<and>
   path = os_path_join (get_config_dir env) (name @ ''.args'') \<and>
   environ env ''PYSCAFFOLD_PROFILE'' \<noteq> Some ''none'' \<and> path_exists env path \<longrightarrow>
     with_profile env args = (''@'' @ path) # args \<and>
     (\<forall>opts. parse_args env args = Inr opts \<longrightarrow>
        (\<exists>profile_args explicit_args.
           read_args_from_files (recursion_limit env) env [''@'' @ path] = Inr profile_args \<and>
           read_args_from_files (recursion_limit env) env args = Inr explicit_args \<and>
           (\<exists>st. run_parser (cli_parser env) (profile_args @ explicit_args) = Inr st \<and>
                 finish_opts (namespace st) = Inr opts) \<and>
           (\<forall>pre s v post a.
              explicit_args = pre @ [s, v] @ post \<and>
              map_of (option_string_actions (cli_parser env)) s = Some a \<and> kind a = Store \<and>
              ''--'' \<notin> set (profile_args @ pre) \<and>
              (\<forall>t \<in> set post. t \<noteq> [] \<and> hd t = CHR ''-'' \<longrightarrow>
                 (\<exists>b. map_of (option_string_actions (cli_parser env)) t = Some b \<and> b \<noteq> a)) \<longrightarrow>
              opts (dest a) = Some (PyStr v))))"
proof (intro impI conjI allI)
  assume h: "name = (case environ env ''PYSCAFFOLD_PROFILE'' of
             None \<Rightarrow> ''default''
           | Some profile \<Rightarrow> if profile = [] then ''default'' else profile) \<and>
   path = os_path_join (get_config_dir env) (name @ ''.args'') \<and>
   environ env ''PYSCAFFOLD_PROFILE'' \<noteq> Some ''none'' \<and> path_exists env path"
  then have n: "name = (case environ env ''PYSCAFFOLD_PROFILE'' of
             None \<Rightarrow> ''default''
           | Some profile \<Rightarrow> if profile = [] then ''default'' else profile)"
    and pth: "path = os_path_join (get_config_dir env) (name @ ''.args'')"
    and nn: "environ env ''PYSCAFFOLD_PROFILE'' \<noteq> Some ''none''"
    and ex: "path_exists env path"
    by blast+
  have gf: "get_args_file env (environ env ''PYSCAFFOLD_PROFILE'') = path"
    unfolding pth n get_args_file_def DEFAULT_PROFILE_def by (rule refl)
  show w: "with_profile env args = (''@'' @ path) # args"
    unfolding with_profile_def Let_def gf using nn ex by simp
  fix opts
  assume ok: "parse_args env args = Inr opts"
  let ?ref = "''@'' @ path"
  from cli_run [OF ok] obtain toks and st :: parse_state and j where
    r: "read_args_from_files (recursion_limit env) env (?ref # args) = Inr toks"
    and p: "run_parser (cli_parser env) toks = Inr st"
    and f: "finish_opts (namespace st) = Inr opts"
    and inv: "run_inv (cli_parser env) j st"
    unfolding w by blast
  from read_args_from_files_Cons [OF r] obtain pa ea where
    pa: "read_args_from_files (recursion_limit env) env [?ref] = Inr pa"
    and ea: "read_args_from_files (recursion_limit env) env args = Inr ea"
    and toks: "toks = pa @ ea"
    by blast
  have wins: "opts (dest a) = Some (PyStr v)"
    if e: "ea = pre @ [s, v] @ post"
      and m: "map_of (option_string_actions (cli_parser env)) s = Some a" and kd: "kind a = Store"
      and nd: "''--'' \<notin> set (pa @ pre)"
      and later: "\<forall>t \<in> set post. t \<noteq> [] \<and> hd t = CHR ''-'' \<longrightarrow>
                 (\<exists>b. map_of (option_string_actions (cli_parser env)) t = Some b \<and> b \<noteq> a)"
    for pre s v post a
  proof -
    have run: "run_parser (cli_parser env) ((pa @ pre) @ [s, v] @ post) = Inr st"
      using p unfolding toks e by simp
    from explicit_option_decides [OF run inv m kd nd later]
    have ns: "namespace st (dest a) = Some (PyStr v)" .
    note sa = cli_option_string [OF m]
    from stored_option_dest [OF sa(5) sa(4) kd]
    have d: "dest a \<noteq> ''project''" "dest a \<noteq> ''log_level''" by simp_all
    from finish_opts_Inr(2) [OF f, rule_format, OF d] ns show ?thesis by simp
  qed
  show "\<exists>profile_args explicit_args.
           read_args_from_files (recursion_limit env) env [?ref] = Inr profile_args \<and>
           read_args_from_files (recursion_limit env) env args = Inr explicit_args \<and>
           (\<exists>st. run_parser (cli_parser env) (profile_args @ explicit_args) = Inr st \<and>
                 finish_opts (namespace st) = Inr opts) \<and>
           (\<forall>pre s v post a.
              explicit_args = pre @ [s, v] @ post \<and>
              map_of (option_string_actions (cli_parser env)) s = Some a \<and> kind a = Store \<and>
              ''--'' \<notin> set (profile_args @ pre) \<and>
              (\<forall>t \<in> set post. t \<noteq> [] \<and> hd t = CHR ''-'' \<longrightarrow>
                 (\<exists>b. map_of (option_string_actions (cli_parser env)) t = Some b \<and> b \<noteq> a)) \<longrightarrow>
              opts (dest a) = Some (PyStr v))"
  proof (rule exI [of _ pa], rule exI [of _ ea], intro conjI allI impI)
    show "read_args_from_files (recursion_limit env) env [?ref] = Inr pa" by (rule pa)
    show "read_args_from_files (recursion_limit env) env args = Inr ea" by (rule ea)
    show "\<exists>st. run_parser (cli_parser env) (pa @ ea) = Inr st \<and>
                 finish_opts (namespace st) = Inr opts"
      using p f unfolding toks by blast
    fix pre s v post a
    assume "ea = pre @ [s, v] @ post \<and>
              map_of (option_string_actions (cli_parser env)) s = Some a \<and> kind a = Store \<and>
              ''--'' \<notin> set (pa @ pre) \<and>
              (\<forall>t \<in> set post. t \<noteq> [] \<and> hd t = CHR ''-'' \<longrightarrow>
                 (\<exists>b. map_of (option_string_actions (cli_parser env)) t = Some b \<and> b \<noteq> a))"
    then show "opts (dest a) = Some (PyStr v)"
      using wins [of pre s v post a] by blast
  qed
qed

theorem profile_arguments_come_first_witness:
  "with_profile example_env_profile
     [''my-project'', ''--description'', ''From the command line'', ''--force''] =
     [''@/home/user/.config/pyscaffold/work.args'',
      ''my-project'', ''--description'', ''From the command line'', ''--force''] \<and>
   read_args_from_files (recursion_limit example_env_profile) example_env_profile
     [''@/home/user/.config/pyscaffold/work.args''] =
     Inr [''--description'', ''From the profile''] \<and>
   opt_value ''description'' (parse_args example_env_profile
     [''my-project'', ''--description'', ''From the command line'', ''--force'']) =
     Inr (Some (PyStr ''From the command line''))"
proof -
  let ?env = example_env_profile
  let ?args = "[''my-project'', ''--description'', ''From the command line'', ''--force'']"
  let ?path = "''/home/user/.config/pyscaffold/work.args''"
  have h: "''work'' = (case environ ?env ''PYSCAFFOLD_PROFILE'' of
             None \<Rightarrow> ''default''
           | Some profile \<Rightarrow> if profile = [] then ''default'' else profile) \<and>
     ?path = os_path_join (get_config_dir ?env) (''work'' @ ''.args'') \<and>
     environ ?env ''PYSCAFFOLD_PROFILE'' \<noteq> Some ''none'' \<and> path_exists ?env ?path"
    unfolding config_dir_example_env_profile
    by (simp add: example_env_profile_def os_path_join_def os_sep_def)
  note c1 = profile_arguments_come_first [of "''work''" ?env ?path ?args, rule_format, OF h]
  have w: "with_profile ?env ?args = (''@'' @ ?path) # ?args"
    using c1 [THEN conjunct1] .
  have "\<not> isl (parse_args ?env ?args)" by code_simp
  then obtain opts where ok: "parse_args ?env ?args = Inr opts"
    by (cases "parse_args ?env ?args") auto
  from c1 [THEN conjunct2, rule_format, OF ok] obtain pa ea where
    pa: "read_args_from_files (recursion_limit ?env) ?env [''@'' @ ?path] = Inr pa"
    and ea: "read_args_from_files (recursion_limit ?env) ?env ?args = Inr ea"
    and wins: "\<forall>pre s v post a.
              ea = pre @ [s, v] @ post \<and>
              map_of (option_string_actions (cli_parser ?env)) s = Some a \<and> kind a = Store \<and>
              ''--'' \<notin> set (pa @ pre) \<and>
              (\<forall>t \<in> set post. t \<noteq> [] \<and> hd t = CHR ''-'' \<longrightarrow>
                 (\<exists>b. map_of (option_string_actions (cli_parser ?env)) t = Some b \<and> b \<noteq> a)) \<longrightarrow>
              opts (dest a) = Some (PyStr v)"
    by blast
  have prof: "read_args_from_files (recursion_limit ?env) ?env [''@'' @ ?path] =
          Inr [''--description'', ''From the profile'']"
    by code_simp
  with pa have pa': "pa = [''--description'', ''From the profile'']"
    by simp
  have "read_args_from_files (recursion_limit ?env) ?env ?args = Inr ?args"
    by code_simp
  with ea have ea': "ea = [''my-project''] @ [''--description'', ''From the command line''] @
                          [''--force'']"
    by simp
  have "opts (dest description_action) = Some (PyStr ''From the command line'')"
  proof (rule wins [rule_format, of "[''my-project'']" _ _ "[''--force'']"], intro conjI)
    show "ea = [''my-project''] @ [''--description'', ''From the command line''] @ [''--force'']"
      by (rule ea')
    show "map_of (option_string_actions (cli_parser ?env)) ''--description'' =
            Some description_action"
      by (simp add: cli_parser_option_string_actions)
    show "kind description_action = Store" by (simp add: description_action_def)
    show "''--'' \<notin> set (pa @ [''my-project''])" by (simp add: pa')
    show "\<forall>t \<in> set [''--force'']. t \<noteq> [] \<and> hd t = CHR ''-'' \<longrightarrow>
            (\<exists>b. map_of (option_string_actions (cli_parser ?env)) t = Some b \<and>
                 b \<noteq> description_action)"
      by (simp add: cli_parser_option_string_actions force_action_def description_action_def)
  qed
  then have "opts ''description'' = Some (PyStr ''From the command line'')"
    by (simp add: description_action_def)
  with ok have d: "opt_value ''description'' (parse_args ?env ?args) =
                   Inr (Some (PyStr ''From the command line''))"
    by (simp add: opt_value_def)
  from w prof d show ?thesis by simp
qed

section \<open>Listing the actions\<close>

text \<open>
  Claim C9. \<open>list_actions\<close> resolves the plan and prints: a header line, then the
  identifier of every action of the plan in the order of the plan. Its effects contain
  no creation of a file or directory and no run of a process, and when the parsed
  command is \<open>list_actions\<close>, \<open>main\<close> does nothing else.
\<close>

theorem list_actions_only_prints_the_plan:
  "(\<forall>plan. discover_actions (case opts ''extensions'' of Some v \<Rightarrow> v | None \<Rightarrow> PyList []) = Inr plan \<longrightarrow>
      list_actions discover_actions get_id spacing opts =
        Inr (map Print ((''Planned Actions:'' @ [CHR 0x0A]) # map (\<lambda>a. spacing @ get_id a) plan))) \<and>
   (\<forall>effects. list_actions discover_actions get_id spacing opts = Inr effects \<longrightarrow>
      filter (\<lambda>e. case e of Print line \<Rightarrow> False | _ \<Rightarrow> True) effects = []) \<and>
   (\<forall>parsed. parse_args env args = Inr parsed \<and>
              parsed ''command'' = Some (PyFunc List_actions) \<longrightarrow>
      main discover_actions get_id spacing run_scaffold env args =
        list_actions discover_actions get_id spacing parsed)"
proof (intro conjI allI impI)
  fix plan
  assume "discover_actions (case opts ''extensions'' of Some v \<Rightarrow> v | None \<Rightarrow> PyList []) = Inr plan"
  then show "list_actions discover_actions get_id spacing opts =
        Inr (map Print ((''Planned Actions:'' @ [CHR 0x0A]) # map (\<lambda>a. spacing @ get_id a) plan))"
    by (simp add: list_actions_def print_actions_map comp_def)
next
  fix effects
  assume "list_actions discover_actions get_id spacing opts = Inr effects"
  then obtain plan where
    "effects = Print (''Planned Actions:'' @ [CHR 0x0A]) # print_actions get_id spacing plan"
    by (auto simp: list_actions_def split: sum.splits)
  then show "filter (\<lambda>e. case e of Print line \<Rightarrow> False | _ \<Rightarrow> True) effects = []"
    by (simp add: print_actions_map filter_empty_conv)
next
  fix parsed
  assume "parse_args env args = Inr parsed \<and> parsed ''command'' = Some (PyFunc List_actions)"
  then show "main discover_actions get_id spacing run_scaffold env args =
        list_actions discover_actions get_id spacing parsed"
    by (simp add: main_def)
qed

theorem list_actions_only_prints_the_plan_witness:
  "main example_plan id ''      '' (\<lambda>opts. Inr [Create ''my-project''])
     example_env_none [''my-project'', ''--list-actions''] =
     Inr [Print (''Planned Actions:'' @ [CHR 0x0A]),
          Print ''      pyscaffold.api:get_default_options'',
          Print ''      pyscaffold.api:verify_options_consistency'',
          Print ''      pyscaffold.structure:define_structure'',
          Print ''      pyscaffold.structure:create_structure'',
          Print ''      pyscaffold.api:init_git'']"
proof -
  let ?args = "[''my-project'', ''--list-actions'']"
  let ?plan = "[''pyscaffold.api:get_default_options'',
          ''pyscaffold.api:verify_options_consistency'',
          ''pyscaffold.structure:define_structure'', ''pyscaffold.structure:create_structure'',
          ''pyscaffold.api:init_git'']"
  have "opt_value ''command'' (parse_args example_env_none ?args) =
        Inr (Some (PyFunc List_actions))"
    by code_simp
  then obtain parsed where ok: "parse_args example_env_none ?args = Inr parsed"
    and cmd: "parsed ''command'' = Some (PyFunc List_actions)"
    by (cases "parse_args example_env_none ?args") (auto simp: opt_value_def)
  note c9 = list_actions_only_prints_the_plan
    [of example_plan parsed id "''      ''" example_env_none "?args"
        "\<lambda>opts. Inr [Create ''my-project'']"]
  have plan: "example_plan (case parsed ''extensions'' of Some v \<Rightarrow> v | None \<Rightarrow> PyList []) =
              Inr ?plan"
    by (simp add: example_plan_def)
  have "main example_plan id ''      '' (\<lambda>opts. Inr [Create ''my-project''])
          example_env_none ?args = list_actions example_plan id ''      '' parsed"
    using c9 [THEN conjunct2, THEN conjunct2, rule_format, OF conjI [OF ok cmd]] .
  also have "\<dots> = Inr (map Print ((''Planned Actions:'' @ [CHR 0x0A]) #
                        map (\<lambda>a. ''      '' @ id a) ?plan))"
    using c9 [THEN conjunct1, rule_format, OF plan] .
  finally show ?thesis by simp
qed

end
